theory Spec2Isabelle
  imports Main "HOL-Library.Sublist"
begin

section \<open>The eCFR client service: data model\<close>

text \<open>
  The development follows \<^verbatim>\<open>frontend/src/app/services/ecfr.service.ts\<close> (class
  \<^verbatim>\<open>ECFRService\<close>) and the interfaces of \<^verbatim>\<open>models/agency.model.ts\<close>.

  Conventions of the embedding.
  \<^item> A JavaScript string is a \<open>string\<close>; \<^verbatim>\<open>toLowerCase\<close> is modelled on the ASCII
    letters, every other character is left as it is.
  \<^item> A title number is an \<open>int\<close>, rendered in decimal by \<^verbatim>\<open>toString\<close>, as JavaScript
    renders an integer of magnitude below \<open>10\<^sup>2\<^sup>1\<close>.
  \<^item> The field \<^verbatim>\<open>chapter\<close> is \<open>chapter_ref\<close> and the method \<^verbatim>\<open>includes\<close> is \<open>includes_str\<close>,
    since both names are reserved words here.
  \<^item> The agency forest arrives as decoded JSON, so no object is reachable along two
    paths: an agency object is modelled by the value of its subtree. An assignment to a
    field of an object is modelled by returning the object as it is after the call.
  \<^item> The interfaces declare every field of an agency as present, so the guards of the
    source against \<^verbatim>\<open>null\<close> and \<^verbatim>\<open>undefined\<close> agencies, children and references are
    not branches of the model; the empty string is the only falsy string.
\<close>

record cfr_reference =
  title :: int
  chapter_ref :: "string option"
  subtitle :: "string option"

datatype agency = Agency
  (name : string)
  (short_name : "string option")
  (display_name : string)
  (sortable_name : string)
  (slug : string)
  (children : "agency list")
  (cfr_references : "cfr_reference list")

subsection \<open>Strings\<close>

definition lower_char :: "char \<Rightarrow> char" where
  "lower_char c =
     (if 65 \<le> (of_char c :: nat) \<and> (of_char c :: nat) \<le> 90
      then char_of ((of_char c :: nat) + 32) else c)"

definition toLowerCase :: "string \<Rightarrow> string" where
  "toLowerCase s = map lower_char s"

fun startsWith :: "string \<Rightarrow> string \<Rightarrow> bool" where
  "startsWith s [] = True"
| "startsWith [] (c # q) = False"
| "startsWith (x # s) (c # q) = (x = c \<and> startsWith s q)"

text \<open>\<^verbatim>\<open>s.includes(q)\<close>: \<open>q\<close> occurs in \<open>s\<close> as a contiguous run of characters.\<close>

fun includes_str :: "string \<Rightarrow> string \<Rightarrow> bool" where
  "includes_str [] q = (q = [])"
| "includes_str (x # s) q = (startsWith (x # s) q \<or> includes_str s q)"

definition digit_char :: "nat \<Rightarrow> char" where
  "digit_char d = char_of (48 + d)"

fun digits :: "nat \<Rightarrow> string" where
  "digits n = (if n < 10 then [digit_char n] else digits (n div 10) @ [digit_char (n mod 10)])"

declare digits.simps [simp del]

definition toString :: "int \<Rightarrow> string" where
  "toString i = (if i < 0 then CHR ''-'' # digits (nat (- i)) else digits (nat i))"

section \<open>The hierarchical search filter\<close>

text \<open>Line 82: \<^verbatim>\<open>((agency.display_name || agency.name) || '').toLowerCase().includes(query)\<close>.\<close>

definition nameMatch :: "string \<Rightarrow> agency \<Rightarrow> bool" where
  "nameMatch query a =
     includes_str (toLowerCase (if display_name a \<noteq> [] then display_name a else name a)) query"

text \<open>Lines 85-87: \<^verbatim>\<open>agency.cfr_references.some(ref => ref.title.toString().includes(query))\<close>.\<close>

definition titleMatch :: "string \<Rightarrow> agency \<Rightarrow> bool" where
  "titleMatch query a =
     list_ex (\<lambda>ref. includes_str (toString (title ref)) query) (cfr_references a)"

text \<open>
  \<^verbatim>\<open>searchAgencies\<close> (lines 75-103) and the callback it gives to \<^verbatim>\<open>agencies.filter\<close> (lines
  78-102). \<^verbatim>\<open>filter\<close> runs the callback over the array from left to right and returns the
  objects for which it answered \<^verbatim>\<open>true\<close>; these are the objects of the input array
  themselves. Line 97 assigns \<^verbatim>\<open>agency.children = matchingChildren\<close> to such an object, so
  the callback returns its verdict together with the object as it leaves it, and
  \<open>searchAgencies\<close> returns the pair of
  \<^item> the array it returns to its caller, and
  \<^item> the objects of the input array, in their order, as they are once it has returned.
\<close>

fun searchAgencies :: "agency list \<Rightarrow> string \<Rightarrow> agency list \<times> agency list"
  and searchAgencies_cb :: "agency \<Rightarrow> string \<Rightarrow> bool \<times> agency" where
  "searchAgencies [] query = ([], [])"
| "searchAgencies (a # agencies) query =
     (let (keep, a') = searchAgencies_cb a query;
          (kept, after) = searchAgencies agencies query
      in (if keep then a' # kept else kept, a' # after))"
| "searchAgencies_cb (Agency n sn dn son sl ch refs) query =
     (if nameMatch query (Agency n sn dn son sl ch refs)
         \<or> titleMatch query (Agency n sn dn son sl ch refs)
      then (True, Agency n sn dn son sl ch refs)
      else
        let (matchingChildren, ch') = searchAgencies ch query
        in if length matchingChildren > 0
           then (True, Agency n sn dn son sl matchingChildren refs)
           else (False, Agency n sn dn son sl ch' refs))"

section \<open>The state of the service\<close>

text \<open>A value of type \<^verbatim>\<open>any\<close>: whatever JSON the server sent.\<close>

datatype any_value =
  JNull | JBool bool | JNumber int | JString string
  | JArray "any_value list" | JObject "(string \<times> any_value) list"

record historical_data =
  date :: string
  wordCount :: int

record title_change =
  date :: string
  title_count :: int
  titles :: "any_value list"
  difference :: int

record title_data =
  title :: int
  wordCount :: int
  lastUpdated :: string

text \<open>
  The body of \<^verbatim>\<open>GET /title/{title}/word-count\<close>. The source tests both fields for
  presence (lines 174, 182, 241, 250), so both are optional here.
\<close>

record title_word_count_response =
  word_count :: "int option"
  date :: "string option"

text \<open>
  The signals of lines 36-42. \<open>selectedAgency\<close> holds the agency as it was when it was
  selected; no property below reads it after a later search.
\<close>

record state =
  agencies :: "agency list"
  selectedAgency :: "agency option"
  selectedTitle :: "int option"
  selectedAgencyHistory :: "historical_data list"
  selectedAgencyChanges :: "title_change list"
  titleData :: "title_data list"
  searchQuery :: string

text \<open>
  The computed signal of lines 45-50. Evaluating it returns the filtered forest and leaves
  the state in which the objects held by the \<open>agencies\<close> signal are as \<open>searchAgencies\<close>
  left them.
\<close>

definition filteredAgencies :: "state \<Rightarrow> agency list \<times> state" where
  "filteredAgencies st =
     (let query = toLowerCase (searchQuery st)
      in if query = [] then (agencies st, st)
         else let (kept, after) = searchAgencies (agencies st) query
              in (kept, st\<lparr>agencies := after\<rparr>))"

section \<open>The HTTP collaborator and the asynchronous operations\<close>

text \<open>
  A promise returned by \<^verbatim>\<open>firstValueFrom(this.http.get(...))\<close> settles either rejected
  (\<open>Inl\<close>) or fulfilled with the decoded body (\<open>Inr\<close>; \<open>None\<close> is a \<^verbatim>\<open>null\<close> body). The
  environment fixes how each request settles, the value of \<^verbatim>\<open>new Date().toISOString()\<close>,
  and the order in which the requests of one batch settle.

  An \<^verbatim>\<open>async\<close> function is modelled by its run to completion, as a function of the state
  at the moment its continuation runs; its result is \<open>Inl\<close> when the promise it returns
  is rejected. A \<^verbatim>\<open>try\<close> block that does more than one request is a function named
  \<open>_try\<close>, and its \<^verbatim>\<open>catch\<close> is the case distinction on the result of that function; in
  the two thin loads the \<^verbatim>\<open>catch\<close> is the \<open>Inl\<close> case of the request.
\<close>

datatype exn = HttpError

record env =
  get_historical_word_counts :: "string \<Rightarrow> exn + historical_data list option"
  get_agency_changes :: "string \<Rightarrow> exn + title_change list option"
  get_title_word_count :: "int \<Rightarrow> exn + title_word_count_response option"
  now :: string
  settle_order :: "int list \<Rightarrow> int list"

text \<open>The trace of the title word-count requests: when one is issued, when it settles.\<close>

datatype event = Issue int | Settle int

text \<open>\<^verbatim>\<open>response.date || new Date().toISOString()\<close> (lines 182 and 250).\<close>

definition date_or_now :: "env \<Rightarrow> string option \<Rightarrow> string" where
  "date_or_now env d = (case d of None \<Rightarrow> now env | Some s \<Rightarrow> if s = [] then now env else s)"

text \<open>\<^verbatim>\<open>Promise.all\<close>: rejected as soon as one of the promises is.\<close>

fun promise_all :: "(exn + 'a) list \<Rightarrow> exn + 'a list" where
  "promise_all [] = Inr []"
| "promise_all (Inl e # ps) = Inl e"
| "promise_all (Inr x # ps) = (case promise_all ps of Inl e \<Rightarrow> Inl e | Inr xs \<Rightarrow> Inr (x # xs))"

subsection \<open>\<^verbatim>\<open>loadAgencyHistory\<close> and \<^verbatim>\<open>loadAgencyChanges\<close> (lines 205-233)\<close>



subsection \<open>\<^verbatim>\<open>loadTitleData\<close> (lines 146-203)\<close>

text \<open>\<^verbatim>\<open>Array.from(new Set(titles))\<close>: a set keeps the order of first insertion.\<close>

definition array_from_set :: "int list \<Rightarrow> int list" where
  "array_from_set xs = foldl (\<lambda>seen x. if x \<in> set seen then seen else seen @ [x]) [] xs"

definition batchSize :: nat where
  "batchSize = 5"

text \<open>\<^verbatim>\<open>xs.slice(i, j)\<close> for \<open>0 \<le> i \<le> j\<close>; both ends are clamped to the length.\<close>

definition slice :: "'a list \<Rightarrow> nat \<Rightarrow> nat \<Rightarrow> 'a list" where
  "slice xs i j = take (j - i) (drop i xs)"

text \<open>The loop of lines 160-162; \<open>batches\<close> is the array built so far.\<close>

function make_batches :: "int list \<Rightarrow> nat \<Rightarrow> int list list \<Rightarrow> int list list" where
  "make_batches uniqueTitles i batches =
     (if i < length uniqueTitles
      then make_batches uniqueTitles (i + batchSize)
             (batches @ [slice uniqueTitles i (i + batchSize)])
      else batches)"
  by pat_completeness auto
termination
  by (relation "measure (\<lambda>(u, i, b). length u - i)") (auto simp: batchSize_def)

declare make_batches.simps [simp del]

text \<open>The \<^verbatim>\<open>try\<close> block of the callback of \<^verbatim>\<open>batch.map\<close>, lines 170-185.\<close>

definition fetch_title_try :: "env \<Rightarrow> int \<Rightarrow> exn + title_data option" where
  "fetch_title_try env t =
     (case get_title_word_count env t of
        Inl e \<Rightarrow> Inl e
      | Inr None \<Rightarrow> Inr None
      | Inr (Some response) \<Rightarrow>
          (case word_count response of
             None \<Rightarrow> Inr None
           | Some w \<Rightarrow>
               if w = 0 then Inr None
               else Inr (Some \<lparr>title = t, wordCount = w,
                                lastUpdated = date_or_now env (date response)\<rparr>)))"

text \<open>The callback with its \<^verbatim>\<open>catch\<close> (lines 186-189), which returns \<^verbatim>\<open>null\<close>.\<close>

definition fetch_title :: "env \<Rightarrow> int \<Rightarrow> exn + title_data option" where
  "fetch_title env t = (case fetch_title_try env t of Inl e \<Rightarrow> Inr None | Inr r \<Rightarrow> Inr r)"

text \<open>
  The loop of lines 167-195, run to completion: what it computes when every request
  settles. The first component lists the requests batch after batch, each batch
  followed by its settlements in the order \<open>settle_order\<close> names; it is a summary of such
  a run. When requests are issued and when the loop goes on is the subject of the
  machine of the section on runs below, which stops at every \<^verbatim>\<open>await\<close>.
\<close>

fun process_batches ::
  "env \<Rightarrow> int list list \<Rightarrow> title_data list \<Rightarrow> event list \<Rightarrow> event list \<times> (exn + title_data list)"
where
  "process_batches env [] allTitleData trace = (trace, Inr allTitleData)"
| "process_batches env (batch # batches) allTitleData trace =
     (let issued = trace @ map Issue batch
      in case promise_all (map (fetch_title env) batch) of
           Inl e \<Rightarrow> (issued, Inl e)
         | Inr batchResults \<Rightarrow>
             let validResults = map the (filter (\<lambda>data. data \<noteq> None) batchResults)
             in process_batches env batches (allTitleData @ validResults)
                  (issued @ map Settle (settle_order env batch)))"

definition loadTitleData_try :: "env \<Rightarrow> agency \<Rightarrow> state \<Rightarrow> event list \<times> (exn + state)" where
  "loadTitleData_try env agency st =
     (if length (cfr_references agency) = 0 then ([], Inr (st\<lparr>titleData := []\<rparr>))
      else
        let titles = map cfr_reference.title (cfr_references agency);
            uniqueTitles = array_from_set titles;
            batches = make_batches uniqueTitles 0 []
        in case process_batches env batches [] [] of
             (trace, Inl e) \<Rightarrow> (trace, Inl e)
           | (trace, Inr allTitleData) \<Rightarrow> (trace, Inr (st\<lparr>titleData := allTitleData\<rparr>)))"

definition loadTitleData :: "env \<Rightarrow> agency \<Rightarrow> state \<Rightarrow> event list \<times> (exn + state)" where
  "loadTitleData env agency st =
     (case loadTitleData_try env agency st of
        (trace, Inl e) \<Rightarrow> (trace, Inr (st\<lparr>titleData := []\<rparr>))
      | (trace, Inr st') \<Rightarrow> (trace, Inr st'))"

subsection \<open>\<^verbatim>\<open>loadTitleWordCount\<close> (lines 235-257)\<close>

definition loadTitleWordCount_try :: "env \<Rightarrow> int \<Rightarrow> state \<Rightarrow> exn + state" where
  "loadTitleWordCount_try env t st =
     (case get_title_word_count env t of
        Inl e \<Rightarrow> Inl e
      | Inr None \<Rightarrow> Inr st
      | Inr (Some response) \<Rightarrow>
          (case word_count response of
             None \<Rightarrow> Inr st
           | Some w \<Rightarrow>
               if w = 0 then Inr st
               else
                 let currentTitleData = titleData st;
                     updatedTitleData =
                       map (\<lambda>td. if title_data.title td = t
                                  then td\<lparr>title_data.wordCount := w,
                                          lastUpdated := date_or_now env (date response)\<rparr>
                                  else td) currentTitleData
                 in Inr (st\<lparr>titleData := updatedTitleData\<rparr>)))"

text \<open>The request is issued at line 238 on every call, before anything is tested.\<close>

definition loadTitleWordCount :: "env \<Rightarrow> int \<Rightarrow> state \<Rightarrow> event list \<times> (exn + state)" where
  "loadTitleWordCount env t st =
     ([Issue t, Settle t],
      case loadTitleWordCount_try env t st of Inl e \<Rightarrow> Inr st | Inr st' \<Rightarrow> Inr st')"

subsection \<open>\<^verbatim>\<open>selectAgency\<close> and \<^verbatim>\<open>selectTitle\<close> (lines 125-140)\<close>

text \<open>
  The state when \<^verbatim>\<open>selectAgency\<close> first suspends: lines 127-128 have run, and each of the
  three loads has run up to its first \<^verbatim>\<open>await\<close>. Of the three only \<^verbatim>\<open>loadTitleData\<close> writes
  a signal before it awaits, at line 149.
\<close>

definition selectAgency_sync :: "agency \<Rightarrow> state \<Rightarrow> state" where
  "selectAgency_sync agency st =
     (let st' = st\<lparr>selectedAgency := Some agency, selectedTitle := None\<rparr>
      in if length (cfr_references agency) = 0 then st'\<lparr>titleData := []\<rparr> else st')"


definition selectTitle :: "env \<Rightarrow> int \<Rightarrow> state \<Rightarrow> event list \<times> (exn + state)" where
  "selectTitle env t st = loadTitleWordCount env t (st\<lparr>selectedTitle := Some t\<rparr>)"

section \<open>The bulk load as a run of steps\<close>

text \<open>
  \<open>loadTitleData\<close> above is the function run to completion. To say when requests are
  issued and when the loop goes on, lines 164-195 are modelled once more as a machine
  that stops at every \<^verbatim>\<open>await\<close>.

  A promise is \<open>None\<close> while it is pending and \<open>Some\<close> of its result once it has settled.
  The machine holds what the loop holds when it is suspended at line 192: the batches
  the \<^verbatim>\<open>for\<close> loop has not taken yet, \<^verbatim>\<open>batchPromises\<close> (each with the title of its callback),
  \<^verbatim>\<open>allTitleData\<close>, and the promise of the loop itself, which settles when the loop is left.
  \<open>http_trace\<close> records every call of \<^verbatim>\<open>this.http.get\<close> and every settlement of a request.
\<close>

record load_run =
  batches_left :: "int list list"
  batchPromises :: "(int \<times> (exn + title_data option) option) list"
  allTitleData :: "title_data list"
  http_trace :: "event list"
  outcome :: "(exn + title_data list) option"

text \<open>\<^verbatim>\<open>this.http.get(...)\<close> under \<^verbatim>\<open>firstValueFrom\<close>, line 170-171: the request goes out.\<close>

definition http_get :: "int \<Rightarrow> event list \<Rightarrow> event list" where
  "http_get t tr = tr @ [Issue t]"

text \<open>
  The callback of line 168 is modelled in its two halves. Called, it runs up to its
  \<^verbatim>\<open>await\<close> at line 170, that is, it calls \<^verbatim>\<open>http.get\<close>, and returns a pending promise:
  this is \<open>fetch_title_call\<close>. When its request has settled it runs from there to its
  end: this is \<open>fetch_title\<close> above, whose result settles the promise.
\<close>

definition fetch_title_call ::
  "int \<Rightarrow> event list \<Rightarrow> (int \<times> (exn + title_data option) option) \<times> event list"
where
  "fetch_title_call t tr = ((t, None), http_get t tr)"

text \<open>\<^verbatim>\<open>batch.map(async title => ...)\<close>, line 168: the callback is called for each title in turn.\<close>

fun batch_map ::
  "int list \<Rightarrow> event list \<Rightarrow> (int \<times> (exn + title_data option) option) list \<times> event list"
where
  "batch_map [] tr = ([], tr)"
| "batch_map (t # batch) tr =
     (let (promise, tr1) = fetch_title_call t tr;
          (promises, tr') = batch_map batch tr1
      in (promise # promises, tr'))"

text \<open>
  The promise of \<^verbatim>\<open>Promise.all(batchPromises)\<close>: rejected once one of the promises is
  rejected, fulfilled with all the results once all are fulfilled, and pending until then.
\<close>

fun promise_all_state :: "(exn + 'a) option list \<Rightarrow> (exn + 'a list) option" where
  "promise_all_state [] = Some (Inr [])"
| "promise_all_state (Some (Inl e) # ps) = Some (Inl e)"
| "promise_all_state (None # ps) =
     (case promise_all_state ps of Some (Inl e) \<Rightarrow> Some (Inl e) | _ \<Rightarrow> None)"
| "promise_all_state (Some (Inr x) # ps) =
     (case promise_all_state ps of
        None \<Rightarrow> None
      | Some (Inl e) \<Rightarrow> Some (Inl e)
      | Some (Inr xs) \<Rightarrow> Some (Inr (x # xs)))"

text \<open>
  The \<^verbatim>\<open>for\<close> loop from its head (line 167) to the point where it is suspended or left:
  it takes the next batch, maps the callback over it and awaits \<^verbatim>\<open>Promise.all\<close> (line
  192); it goes on at once only if that promise has already settled.
\<close>

fun run_loop :: "int list list \<Rightarrow> title_data list \<Rightarrow> event list \<Rightarrow> load_run" where
  "run_loop [] acc tr =
     \<lparr>batches_left = [], batchPromises = [], allTitleData = acc, http_trace = tr,
      outcome = Some (Inr acc)\<rparr>"
| "run_loop (batch # rest) acc tr =
     (let (promises, tr') = batch_map batch tr
      in case promise_all_state (map snd promises) of
           None \<Rightarrow>
             \<lparr>batches_left = rest, batchPromises = promises, allTitleData = acc,
              http_trace = tr', outcome = None\<rparr>
         | Some (Inl e) \<Rightarrow>
             \<lparr>batches_left = rest, batchPromises = promises, allTitleData = acc,
              http_trace = tr', outcome = Some (Inl e)\<rparr>
         | Some (Inr batchResults) \<Rightarrow>
             run_loop rest (acc @ map the (filter (\<lambda>data. data \<noteq> None) batchResults)) tr')"

text \<open>
  The loop suspended at line 192 looks at \<^verbatim>\<open>Promise.all(batchPromises)\<close>: it stays
  suspended while that promise is pending, it is left through the \<^verbatim>\<open>catch\<close> of line 199
  when the promise is rejected, and otherwise lines 193-194 run and the loop goes to
  its head.
\<close>

definition loop_resume :: "load_run \<Rightarrow> load_run" where
  "loop_resume r =
     (if outcome r \<noteq> None then r
      else case promise_all_state (map snd (batchPromises r)) of
             None \<Rightarrow> r
           | Some (Inl e) \<Rightarrow> r\<lparr>outcome := Some (Inl e)\<rparr>
           | Some (Inr batchResults) \<Rightarrow>
               run_loop (batches_left r)
                 (allTitleData r @ map the (filter (\<lambda>data. data \<noteq> None) batchResults))
                 (http_trace r))"

text \<open>The requests in flight: the titles of the callbacks whose promise is pending.\<close>

definition pending :: "load_run \<Rightarrow> int list" where
  "pending r = map fst (filter (\<lambda>tp. snd tp = None) (batchPromises r))"

text \<open>
  The callback that awaits the request for \<open>t\<close> runs to its end, lines 170-189 with the
  \<^verbatim>\<open>catch\<close>, and its promise settles with what it returns.
\<close>

fun settle_promise ::
  "env \<Rightarrow> int \<Rightarrow> (int \<times> (exn + title_data option) option) list
     \<Rightarrow> (int \<times> (exn + title_data option) option) list"
where
  "settle_promise env t [] = []"
| "settle_promise env t ((t', p) # ps) =
     (if t' = t \<and> p = None then (t', Some (fetch_title env t)) # ps
      else (t', p) # settle_promise env t ps)"

text \<open>
  One step of the environment: the request for \<open>t\<close> settles. Only a request in flight
  can settle. Its callback runs to its end, and then the loop resumes if it can.
\<close>

definition settle :: "env \<Rightarrow> int \<Rightarrow> load_run \<Rightarrow> load_run" where
  "settle env t r =
     (if t \<in> set (pending r)
      then loop_resume
             (r\<lparr>batchPromises := settle_promise env t (batchPromises r),
                http_trace := http_trace r @ [Settle t]\<rparr>)
      else r)"

text \<open>
  Lines 148-164: an agency without references ends the load before any request;
  otherwise the titles are deduplicated and cut into batches, and the loop is entered
  with an empty \<^verbatim>\<open>allTitleData\<close>.
\<close>

definition load_start :: "agency \<Rightarrow> load_run" where
  "load_start agency =
     (if length (cfr_references agency) = 0
      then \<lparr>batches_left = [], batchPromises = [], allTitleData = [], http_trace = [],
            outcome = Some (Inr [])\<rparr>
      else
        let titles = map cfr_reference.title (cfr_references agency);
            uniqueTitles = array_from_set titles;
            batches = make_batches uniqueTitles 0 []
        in run_loop batches [] [])"

text \<open>
  A run: the load is started and then the requests named in the schedule settle, one
  after the other. Every order in which requests can settle is a schedule.
\<close>

definition load_steps :: "env \<Rightarrow> agency \<Rightarrow> int list \<Rightarrow> load_run" where
  "load_steps env agency schedule = foldl (\<lambda>r t. settle env t r) (load_start agency) schedule"

text \<open>
  What the load writes to \<open>titleData\<close> when the loop is left: \<^verbatim>\<open>allTitleData\<close> at line 198,
  the empty array at line 201.
\<close>

definition load_written :: "load_run \<Rightarrow> title_data list option" where
  "load_written r =
     (case outcome r of
        None \<Rightarrow> None
      | Some (Inl e) \<Rightarrow> Some []
      | Some (Inr all) \<Rightarrow> Some all)"

section \<open>Notions used to state the properties\<close>

subsection \<open>Trees\<close>

text \<open>All nodes of a tree, the root first; the descendants of a node are the rest.\<close>

fun nodes :: "agency \<Rightarrow> agency list" where
  "nodes (Agency n sn dn son sl ch refs) =
     Agency n sn dn son sl ch refs # concat (map nodes ch)"

definition forest_nodes :: "agency list \<Rightarrow> agency list" where
  "forest_nodes forest = concat (map nodes forest)"

definition descendants :: "agency \<Rightarrow> agency list" where
  "descendants a = forest_nodes (children a)"

text \<open>
  The matching predicate in the words of the specification, on the query as the user
  typed it: the display name (the name when there is no display name) contains the
  query case-insensitively, or the decimal rendering of the title number of some CFR
  reference contains the query.
\<close>

definition matches_directly :: "string \<Rightarrow> agency \<Rightarrow> bool" where
  "matches_directly q a =
     (includes_str (toLowerCase (if display_name a \<noteq> [] then display_name a else name a))
        (toLowerCase q)
      \<or> list_ex (\<lambda>ref. includes_str (toString (cfr_reference.title ref)) q) (cfr_references a))"

definition has_matching_descendant :: "string \<Rightarrow> agency \<Rightarrow> bool" where
  "has_matching_descendant q a = list_ex (matches_directly q) (descendants a)"

text \<open>The nodes of a tree that do not lie below a node that matches directly.\<close>

fun uncovered :: "string \<Rightarrow> agency \<Rightarrow> agency list" where
  "uncovered q (Agency n sn dn son sl ch refs) =
     Agency n sn dn son sl ch refs #
     (if matches_directly q (Agency n sn dn son sl ch refs) then []
      else concat (map (uncovered q) ch))"

text \<open>
  \<open>pruned_list xs ys\<close>: the forest \<open>xs\<close> arises from the forest \<open>ys\<close> by deleting trees and
  pruning the remaining ones in the same way, one level down; nothing is reordered,
  added or renamed at any level.
\<close>

fun pruned_list :: "agency list \<Rightarrow> agency list \<Rightarrow> bool"
  and pruned :: "agency \<Rightarrow> agency \<Rightarrow> bool" where
  "pruned_list [] ys = True"
| "pruned_list (x # xs) [] = False"
| "pruned_list (x # xs) (y # ys) =
     (if pruned x y \<and> pruned_list xs ys then True else pruned_list (x # xs) ys)"
| "pruned (Agency n sn dn son sl ch refs) (Agency n' sn' dn' son' sl' ch' refs') =
     (n = n' \<and> sn = sn' \<and> dn = dn' \<and> son = son' \<and> sl = sl' \<and> refs = refs'
      \<and> pruned_list ch ch')"

subsection \<open>Fetches\<close>

text \<open>
  What a word-count fetch for a title yields when it succeeds: the request is
  fulfilled and the body carries a word count other than zero. The result is the word
  count and the date to store.
\<close>

definition fetched :: "env \<Rightarrow> int \<Rightarrow> (int \<times> string) option" where
  "fetched env t =
     (case get_title_word_count env t of
        Inl e \<Rightarrow> None
      | Inr None \<Rightarrow> None
      | Inr (Some response) \<Rightarrow>
          (case word_count response of
             None \<Rightarrow> None
           | Some w \<Rightarrow> if w = 0 then None else Some (w, date_or_now env (date response))))"

text \<open>The entry that \<^verbatim>\<open>loadTitleData\<close> builds for a title whose fetch succeeds.\<close>

definition entry_of :: "env \<Rightarrow> int \<Rightarrow> title_data option" where
  "entry_of env t =
     map_option (\<lambda>(w, d). \<lparr>title_data.title = t, wordCount = w, lastUpdated = d\<rparr>)
       (fetched env t)"

text \<open>
  The requests in flight after a trace, in the order in which they were issued, when
  \<open>waiting\<close> were in flight before it.
\<close>

fun in_flight :: "event list \<Rightarrow> int list \<Rightarrow> int list" where
  "in_flight [] waiting = waiting"
| "in_flight (Issue t # es) waiting = in_flight es (waiting @ [t])"
| "in_flight (Settle t # es) waiting = in_flight es (remove1 t waiting)"

fun issued :: "event list \<Rightarrow> int list" where
  "issued [] = []"
| "issued (Issue t # es) = t # issued es"
| "issued (Settle t # es) = issued es"

text \<open>
  The events of one batch as the function run to completion lists them: all its
  requests are issued, then they settle in the order \<open>settle_order\<close> names.
\<close>

definition batch_events :: "env \<Rightarrow> int list \<Rightarrow> event list" where
  "batch_events env batch = map Issue batch @ map Settle (settle_order env batch)"

subsection \<open>Notions used in the proofs about runs\<close>

text \<open>The entries of the titles, among those given, whose fetch succeeds.\<close>

definition entries :: "env \<Rightarrow> int list \<Rightarrow> title_data list" where
  "entries env ts = map the (filter (\<lambda>d. d \<noteq> None) (map (entry_of env) ts))"

text \<open>
  The run suspended at line 192 on the batch \<open>b\<close>, when the requests for the titles in \<open>S\<close>
  have settled.
\<close>

definition awaiting ::
  "env \<Rightarrow> int list list \<Rightarrow> int list \<Rightarrow> int set \<Rightarrow> title_data list \<Rightarrow> event list \<Rightarrow> load_run"
where
  "awaiting env rest b S acc tr =
     \<lparr>batches_left = rest,
      batchPromises = map (\<lambda>t. (t, if t \<in> S then Some (fetch_title env t) else None)) b,
      allTitleData = acc, http_trace = tr, outcome = None\<rparr>"

text \<open>
  The traces in which a batch is issued only when nothing is in flight:
  \<open>batched bs k pend tr\<close> says that \<open>tr\<close> issues the first \<open>k\<close> batches of \<open>bs\<close> in this way
  and leaves the requests \<open>pend\<close> in flight.
\<close>

inductive batched :: "int list list \<Rightarrow> nat \<Rightarrow> int list \<Rightarrow> event list \<Rightarrow> bool"
  for bs :: "int list list"
where
  batched_start: "batched bs 0 [] []"
| batched_settle:
    "batched bs k pend tr \<Longrightarrow> t \<in> set pend \<Longrightarrow>
     batched bs k (remove1 t pend) (tr @ [Settle t])"
| batched_issue:
    "batched bs k [] tr \<Longrightarrow> k < length bs \<Longrightarrow>
     batched bs (Suc k) (bs ! k) (tr @ map Issue (bs ! k))"

text \<open>The runs that the steps can reach: suspended on a batch, or over.\<close>

definition reached :: "env \<Rightarrow> int list list \<Rightarrow> load_run \<Rightarrow> bool" where
  "reached env bs r \<longleftrightarrow>
     (\<exists>k S. k < length bs \<and> \<not> set (bs ! k) \<subseteq> S
         \<and> r = awaiting env (drop (Suc k) bs) (bs ! k) S
                 (entries env (concat (take k bs))) (http_trace r)
         \<and> batched bs (Suc k) (filter (\<lambda>t. t \<notin> S) (bs ! k)) (http_trace r))
     \<or> (r = run_loop [] (entries env (concat bs)) (http_trace r)
         \<and> batched bs (length bs) [] (http_trace r))"

subsection \<open>Example inputs\<close>

definition example_ref :: "int \<Rightarrow> cfr_reference" where
  "example_ref t = \<lparr>cfr_reference.title = t, chapter_ref = None, subtitle = None\<rparr>"

definition example_agency :: "string \<Rightarrow> int list \<Rightarrow> agency list \<Rightarrow> agency" where
  "example_agency n ts ch = Agency n None n n n ch (map example_ref ts)"

definition example_state :: "agency list \<Rightarrow> string \<Rightarrow> state" where
  "example_state forest q =
     \<lparr>agencies = forest, selectedAgency = None, selectedTitle = None,
      selectedAgencyHistory = [], selectedAgencyChanges = [], titleData = [],
      searchQuery = q\<rparr>"

definition example_entry :: "int \<Rightarrow> title_data" where
  "example_entry t = \<lparr>title_data.title = t, wordCount = 100 * t, lastUpdated = ''2024-01-01''\<rparr>"

text \<open>
  An environment in which the word-count request for a title in \<open>failing\<close> is rejected,
  the one for a title in \<open>zero\<close> is answered with a word count of zero, and every other
  title \<open>t\<close> is answered with the word count \<open>1000 + t\<close>; the history and changes
  requests are rejected; a batch settles in reverse order.
\<close>

definition example_env :: "int list \<Rightarrow> int list \<Rightarrow> env" where
  "example_env failing zero =
     \<lparr>get_historical_word_counts = (\<lambda>s. Inl HttpError),
      get_agency_changes = (\<lambda>s. Inl HttpError),
      get_title_word_count =
        (\<lambda>t. if t \<in> set failing then Inl HttpError
              else if t \<in> set zero
              then Inr (Some \<lparr>word_count = Some 0, date = Some ''2025-02-02''\<rparr>)
              else Inr (Some \<lparr>word_count = Some (1000 + t), date = Some ''2025-02-02''\<rparr>)),
      now = ''2025-03-03T00:00:00.000Z'',
      settle_order = rev\<rparr>"

definition example_loaded :: state where
  "example_loaded = (example_state [] [])\<lparr>titleData := map example_entry [1, 3, 4]\<rparr>"

text \<open>
  A forest with one root, Alpha, whose children are Beta, which references title 40,
  and Gamma, which references nothing.
\<close>

definition example_forest :: "agency list" where
  "example_forest =
     [example_agency ''Alpha'' []
        [example_agency ''Beta'' [40] [], example_agency ''Gamma'' [] []]]"

definition example_forest_pruned :: "agency list" where
  "example_forest_pruned = [example_agency ''Alpha'' [] [example_agency ''Beta'' [40] []]]"

definition example_epa :: agency where
  "example_epa = example_agency ''EPA'' [] [example_agency ''Foo'' [] []]"

text \<open>A state in which an agency and a title are selected and all collections are filled.\<close>

definition example_busy :: state where
  "example_busy =
     \<lparr>agencies = example_forest,
      selectedAgency = Some (example_agency ''Old'' [1, 3, 4] []),
      selectedTitle = Some 3,
      selectedAgencyHistory = [\<lparr>historical_data.date = ''2024-01-01'', wordCount = 500\<rparr>],
      selectedAgencyChanges =
        [\<lparr>title_change.date = ''2024-01-01'', title_count = 1, titles = [], difference = 2\<rparr>],
      titleData = map example_entry [1, 3, 4],
      searchQuery = []\<rparr>"

text \<open>An agency that references the titles 1, 1, 2, 3, 4, 5, 6 in this order.\<close>

definition example_seven :: agency where
  "example_seven = example_agency ''Seven'' [1, 1, 2, 3, 4, 5, 6] []"

section \<open>Verified properties\<close>

subsection \<open>Strings\<close>

lemma toLowerCase_Nil_iff: "toLowerCase s = [] \<longleftrightarrow> s = []"
  by (simp add: toLowerCase_def)

lemma startsWith_set: "startsWith s q \<Longrightarrow> set q \<subseteq> set s"
  by (induction s q rule: startsWith.induct) auto

lemma includes_str_set: "includes_str s q \<Longrightarrow> set q \<subseteq> set s"
proof (induction s)
  case Nil
  then show ?case by simp
next
  case (Cons x s)
  from Cons.prems have "startsWith (x # s) q \<or> includes_str s q" by simp
  then show ?case
  proof
    assume "startsWith (x # s) q"
    then show ?thesis by (rule startsWith_set)
  next
    assume "includes_str s q"
    then have "set q \<subseteq> set s" by (rule Cons.IH)
    then show ?thesis by auto
  qed
qed

lemma lower_char_below_upper:
  "(of_char (lower_char c) :: nat) < 65 \<Longrightarrow> lower_char c = c"
  by (auto simp: lower_char_def split: if_splits)

lemma lower_char_fixes_below_upper:
  "(of_char c :: nat) < 65 \<Longrightarrow> lower_char c = c"
  by (simp add: lower_char_def)

lemma includes_str_toLowerCase_plain:
  assumes "\<forall>c \<in> set s. (of_char c :: nat) < 65"
  shows "includes_str s (toLowerCase q) = includes_str s q"
proof (cases "includes_str s (toLowerCase q) \<or> includes_str s q")
  case True
  then have "toLowerCase q = q"
  proof
    assume "includes_str s (toLowerCase q)"
    then have "set (toLowerCase q) \<subseteq> set s"
      by (rule includes_str_set)
    then have "\<forall>c \<in> set q. (of_char (lower_char c) :: nat) < 65"
      using assms by (auto simp: toLowerCase_def)
    then have "map lower_char q = q"
      by (intro map_idI lower_char_below_upper) simp
    then show ?thesis
      by (simp add: toLowerCase_def)
  next
    assume "includes_str s q"
    then have "\<forall>c \<in> set q. (of_char c :: nat) < 65"
      using assms includes_str_set by blast
    then have "map lower_char q = q"
      by (intro map_idI lower_char_fixes_below_upper) simp
    then show ?thesis
      by (simp add: toLowerCase_def)
  qed
  then show ?thesis by simp
next
  case False
  then show ?thesis by simp
qed

lemma digits_plain: "\<forall>c \<in> set (digits n). (of_char c :: nat) < 65"
proof (induction n rule: digits.induct)
  case (1 n)
  have d: "(of_char (digit_char (n mod 10)) :: nat) < 65"
    by (simp add: digit_char_def)
  show ?case
  proof (cases "n < 10")
    case True
    then show ?thesis by (subst digits.simps) (simp add: digit_char_def)
  next
    case False
    then show ?thesis using 1 d by (subst digits.simps) simp
  qed
qed

lemma toString_plain: "\<forall>c \<in> set (toString i). (of_char c :: nat) < 65"
  using digits_plain by (simp add: toString_def)

lemma includes_str_toString_toLowerCase:
  "includes_str (toString i) (toLowerCase q) = includes_str (toString i) q"
  by (rule includes_str_toLowerCase_plain) (rule toString_plain)

text \<open>
  The test of line 90 on the lower-cased query is the matching predicate of the
  specification on the query as typed.
\<close>

lemma code_match_iff:
  "nameMatch (toLowerCase q) a \<or> titleMatch (toLowerCase q) a \<longleftrightarrow> matches_directly q a"
  by (simp add: nameMatch_def titleMatch_def matches_directly_def
        includes_str_toString_toLowerCase)
subsection \<open>The search filter\<close>

lemma searchAgencies_fst:
  "fst (searchAgencies ags q) =
     map (\<lambda>a. snd (searchAgencies_cb a q)) (filter (\<lambda>a. fst (searchAgencies_cb a q)) ags)"
  by (induction ags) (auto simp: Let_def split: prod.splits)

lemma searchAgencies_snd:
  "snd (searchAgencies ags q) = map (\<lambda>a. snd (searchAgencies_cb a q)) ags"
  by (induction ags) (auto simp: Let_def split: prod.splits)

lemma searchAgencies_cb_unfold:
  "searchAgencies_cb (Agency n sn dn son sl ch refs) q =
     (if nameMatch q (Agency n sn dn son sl ch refs) \<or> titleMatch q (Agency n sn dn son sl ch refs)
      then (True, Agency n sn dn son sl ch refs)
      else if fst (searchAgencies ch q) \<noteq> []
      then (True, Agency n sn dn son sl (fst (searchAgencies ch q)) refs)
      else (False, Agency n sn dn son sl (snd (searchAgencies ch q)) refs))"
  by (simp add: Let_def split_beta)

declare searchAgencies_cb.simps [simp del]

text \<open>An agency that the callback rejects is left as it was, with its whole subtree.\<close>

lemma cb_unkept_unchanged:
  "\<not> fst (searchAgencies_cb a q) \<Longrightarrow> snd (searchAgencies_cb a q) = a"
proof (induction a)
  case (Agency n sn dn son sl ch refs)
  have "fst (searchAgencies ch q) = []"
    using Agency.prems by (auto simp: searchAgencies_cb_unfold split: if_splits)
  then have none: "\<forall>c \<in> set ch. \<not> fst (searchAgencies_cb c q)"
    by (simp add: searchAgencies_fst filter_empty_conv)
  then have "map (\<lambda>a. snd (searchAgencies_cb a q)) ch = ch"
    using Agency.IH by (simp add: map_idI)
  then show ?case
    using Agency.prems by (auto simp: searchAgencies_cb_unfold searchAgencies_snd split: if_splits)
qed

lemma cb_matching:
  "nameMatch q a \<or> titleMatch q a \<Longrightarrow> searchAgencies_cb a q = (True, a)"
  by (cases a) (simp add: searchAgencies_cb_unfold)

lemma cb_fields:
  "name (snd (searchAgencies_cb a q)) = name a
   \<and> display_name (snd (searchAgencies_cb a q)) = display_name a
   \<and> cfr_references (snd (searchAgencies_cb a q)) = cfr_references a"
  by (cases a) (simp add: searchAgencies_cb_unfold)

lemma nodes_self: "a \<in> set (nodes a)"
  by (cases a) simp

lemma nodes_descendants: "nodes a = a # descendants a"
  by (cases a) (simp add: descendants_def forest_nodes_def)

lemma uncovered_self: "a \<in> set (uncovered raw a)"
  by (cases a) simp

lemma has_matching_descendant_iff:
  "has_matching_descendant raw a \<longleftrightarrow>
     (\<exists>c \<in> set (children a). \<exists>n \<in> set (nodes c). matches_directly raw n)"
  by (auto simp: has_matching_descendant_def descendants_def forest_nodes_def list_ex_iff)

lemma matching_node_below:
  "matches_directly raw a \<or> has_matching_descendant raw a \<Longrightarrow>
   \<exists>n \<in> set (nodes a). matches_directly raw n"
  by (auto simp: nodes_descendants has_matching_descendant_def list_ex_iff)

text \<open>
  No false inclusion among the nodes that the filter itself decided on: a node of a
  kept tree that does not lie below a direct match matches directly or has a
  matching descendant in the kept tree.
\<close>

lemma cb_kept_uncovered:
  "fst (searchAgencies_cb a (toLowerCase raw)) \<Longrightarrow>
   \<forall>n \<in> set (uncovered raw (snd (searchAgencies_cb a (toLowerCase raw)))).
     matches_directly raw n \<or> has_matching_descendant raw n"
proof (induction a)
  case (Agency n sn dn son sl ch refs)
  let ?q = "toLowerCase raw"
  let ?a = "Agency n sn dn son sl ch refs"
  show ?case
  proof (cases "matches_directly raw ?a")
    case True
    then have "searchAgencies_cb ?a ?q = (True, ?a)"
      by (simp add: cb_matching code_match_iff)
    then show ?thesis using True by simp
  next
    case False
    let ?kept = "fst (searchAgencies ch ?q)"
    let ?a' = "Agency n sn dn son sl ?kept refs"
    have nomatch: "\<not> (nameMatch ?q ?a \<or> titleMatch ?q ?a)"
      using False by (simp add: code_match_iff)
    then have kept: "?kept \<noteq> []" and res: "snd (searchAgencies_cb ?a ?q) = ?a'"
      using Agency.prems by (auto simp: searchAgencies_cb_unfold split: if_splits)
    have nomatch': "\<not> matches_directly raw ?a'"
      using False by (auto simp: matches_directly_def split: if_splits)
    have IH: "\<forall>c' \<in> set ?kept. \<forall>m \<in> set (uncovered raw c').
                 matches_directly raw m \<or> has_matching_descendant raw m"
      using Agency.IH by (auto simp: searchAgencies_fst)
    obtain c' where c': "c' \<in> set ?kept"
      using kept by (cases ?kept) auto
    then have "matches_directly raw c' \<or> has_matching_descendant raw c'"
      using IH uncovered_self by blast
    then have "\<exists>m \<in> set (nodes c'). matches_directly raw m"
      by (rule matching_node_below)
    then have root: "has_matching_descendant raw ?a'"
      using c' by (auto simp: has_matching_descendant_iff)
    show ?thesis
      using res nomatch' root IH by auto
  qed
qed

subsection \<open>Order and pruning\<close>

lemma pruned_list_refl: "(\<forall>x \<in> set xs. pruned x x) \<Longrightarrow> pruned_list xs xs"
  by (induction xs) auto

lemma pruned_refl: "pruned a a"
  by (induction a) (simp add: pruned_list_refl)

lemma pruned_list_filter_map:
  "(\<forall>x \<in> set xs. pruned (f x) x) \<Longrightarrow> pruned_list (map f (filter P xs)) xs"
proof (induction xs)
  case Nil
  then show ?case by simp
next
  case (Cons x xs)
  then have IH: "pruned_list (map f (filter P xs)) xs" by simp
  show ?case
  proof (cases "P x")
    case True
    then show ?thesis using Cons.prems IH by simp
  next
    case False
    then show ?thesis using IH by (cases "map f (filter P xs)") auto
  qed
qed

lemma cb_pruned: "pruned (snd (searchAgencies_cb a q)) a"
proof (induction a)
  case (Agency n sn dn son sl ch refs)
  have "pruned_list (fst (searchAgencies ch q)) ch"
    unfolding searchAgencies_fst using Agency.IH by (intro pruned_list_filter_map) simp
  moreover have "pruned_list (snd (searchAgencies ch q)) ch"
  proof (cases "fst (searchAgencies ch q) = []")
    case True
    then have "\<forall>c \<in> set ch. \<not> fst (searchAgencies_cb c q)"
      by (simp add: searchAgencies_fst filter_empty_conv)
    then have "snd (searchAgencies ch q) = ch"
      by (simp add: searchAgencies_snd map_idI cb_unkept_unchanged)
    then show ?thesis by (simp add: pruned_list_refl pruned_refl)
  next
    case False
    have "pruned_list (map (\<lambda>a. snd (searchAgencies_cb a q)) (filter (\<lambda>a. True) ch)) ch"
      using Agency.IH by (intro pruned_list_filter_map) simp
    then show ?thesis by (simp add: searchAgencies_snd)
  qed
  ultimately show ?case
    by (simp add: searchAgencies_cb_unfold pruned_list_refl pruned_refl)
qed

lemma searchAgencies_pruned: "pruned_list (fst (searchAgencies ags q)) ags"
  unfolding searchAgencies_fst by (intro pruned_list_filter_map) (simp add: cb_pruned)

subsection \<open>Direct matches\<close>

lemma cb_keeps_matching_node:
  "m \<in> set (nodes a) \<Longrightarrow> nameMatch q m \<or> titleMatch q m \<Longrightarrow>
   fst (searchAgencies_cb a q) \<and> m \<in> set (nodes (snd (searchAgencies_cb a q)))"
proof (induction a)
  case (Agency n sn dn son sl ch refs)
  let ?a = "Agency n sn dn son sl ch refs"
  show ?case
  proof (cases "nameMatch q ?a \<or> titleMatch q ?a")
    case True
    then show ?thesis using Agency.prems(1) by (simp only: cb_matching) simp
  next
    case False
    then have "m \<noteq> ?a" using Agency.prems(2) by auto
    then obtain c where c: "c \<in> set ch" "m \<in> set (nodes c)"
      using Agency.prems(1) by auto
    then have k: "fst (searchAgencies_cb c q)" "m \<in> set (nodes (snd (searchAgencies_cb c q)))"
      using Agency.IH Agency.prems(2) by auto
    then have "snd (searchAgencies_cb c q) \<in> set (fst (searchAgencies ch q))"
      using c by (auto simp: searchAgencies_fst)
    then show ?thesis
      using False k by (auto simp: searchAgencies_cb_unfold)
  qed
qed

lemma searchAgencies_keeps_matching_node:
  "m \<in> set (forest_nodes ags) \<Longrightarrow> nameMatch q m \<or> titleMatch q m \<Longrightarrow>
   m \<in> set (forest_nodes (fst (searchAgencies ags q)))"
  using cb_keeps_matching_node by (auto simp: forest_nodes_def searchAgencies_fst)
subsection \<open>The computed signal \<open>filteredAgencies\<close>\<close>

lemma includes_str_Nil: "includes_str s []"
  by (cases s) simp_all

lemma matches_directly_Nil: "matches_directly [] a"
  by (simp add: matches_directly_def toLowerCase_def includes_str_Nil)

lemma filteredAgencies_fst:
  "fst (filteredAgencies st) =
     (if searchQuery st = [] then agencies st
      else fst (searchAgencies (agencies st) (toLowerCase (searchQuery st))))"
  by (simp add: filteredAgencies_def Let_def split_beta toLowerCase_Nil_iff)

lemma searchAgencies_uncovered:
  "\<forall>n \<in> set (concat (map (uncovered raw) (fst (searchAgencies ags (toLowerCase raw))))).
     matches_directly raw n \<or> has_matching_descendant raw n"
  using cb_kept_uncovered by (auto simp: searchAgencies_fst)

text \<open>
  Claim C1 (a defect of the code). Evaluating \<open>filteredAgencies\<close> with the query \<open>40\<close> on the
  example forest assigns to the \<open>children\<close> of Alpha, an object of the \<open>agencies\<close>
  signal: Gamma is gone from the forest the signal holds. It stays gone when the
  query is then cleared, and when Alpha is then found by its name, although line 89
  says that a matching agency is included with all its children.
\<close>

theorem filteredAgencies_mutates_agencies:
  "agencies (example_state example_forest ''40'') = example_forest
   \<and> agencies (snd (filteredAgencies (example_state example_forest ''40''))) =
       example_forest_pruned
   \<and> example_forest_pruned \<noteq> example_forest
   \<and> fst (filteredAgencies
            ((snd (filteredAgencies (example_state example_forest ''40'')))
               \<lparr>searchQuery := []\<rparr>)) = example_forest_pruned
   \<and> fst (filteredAgencies
            ((snd (filteredAgencies (example_state example_forest ''40'')))
               \<lparr>searchQuery := ''alpha''\<rparr>)) = example_forest_pruned"
  by code_simp

text \<open>
  Claim C4, as stated, fails: with the query \<open>epa\<close> the agency EPA matches directly and
  is returned with its child Foo, which neither matches nor has a matching
  descendant.
\<close>

theorem direct_match_children_counterexample:
  "fst (filteredAgencies (example_state [example_epa] ''epa'')) = [example_epa]
   \<and> children example_epa = [example_agency ''Foo'' [] []]
   \<and> matches_directly ''epa'' example_epa
   \<and> \<not> matches_directly ''epa'' (example_agency ''Foo'' [] [])
   \<and> \<not> has_matching_descendant ''epa'' (example_agency ''Foo'' [] [])"
  by code_simp

text \<open>
  Claim C4, amended. A node of the forest, at any depth, that matches the query
  directly is a node of the returned forest, and a root that matches directly is a
  root of the returned forest; in both cases it is there as it was, with all of its
  children: the children of a direct match are not filtered.
\<close>

theorem direct_match_kept_with_subtree:
  assumes "matches_directly (searchQuery st) m"
  shows "(m \<in> set (agencies st) \<longrightarrow> m \<in> set (fst (filteredAgencies st)))
         \<and> (m \<in> set (forest_nodes (agencies st)) \<longrightarrow>
              m \<in> set (forest_nodes (fst (filteredAgencies st))))"
proof (cases "searchQuery st = []")
  case True
  then show ?thesis by (simp add: filteredAgencies_fst)
next
  case False
  let ?q = "toLowerCase (searchQuery st)"
  have code: "nameMatch ?q m \<or> titleMatch ?q m"
    using assms by (simp only: code_match_iff)
  then have cb: "searchAgencies_cb m ?q = (True, m)"
    by (rule cb_matching)
  have "m \<in> set (agencies st) \<Longrightarrow> m \<in> set (fst (searchAgencies (agencies st) ?q))"
    using cb by (force simp: searchAgencies_fst)
  moreover have "m \<in> set (forest_nodes (agencies st)) \<Longrightarrow>
      m \<in> set (forest_nodes (fst (searchAgencies (agencies st) ?q)))"
    using code by (simp add: searchAgencies_keeps_matching_node)
  ultimately show ?thesis
    using False by (simp add: filteredAgencies_fst)
qed

theorem direct_match_kept_with_subtree_witness:
  "matches_directly (searchQuery (example_state [example_epa] ''EPA'')) example_epa
   \<and> example_epa \<in> set (agencies (example_state [example_epa] ''EPA''))
   \<and> example_epa \<in> set (fst (filteredAgencies (example_state [example_epa] ''EPA'')))
   \<and> example_epa \<in> set (forest_nodes (fst (filteredAgencies (example_state [example_epa] ''EPA''))))"
proof -
  have m: "matches_directly (searchQuery (example_state [example_epa] ''EPA'')) example_epa"
    by code_simp
  have a: "example_epa \<in> set (agencies (example_state [example_epa] ''EPA''))"
    by (simp add: example_state_def)
  then have n: "example_epa \<in> set (forest_nodes (agencies (example_state [example_epa] ''EPA'')))"
    using nodes_self by (fastforce simp: forest_nodes_def)
  show ?thesis
    using direct_match_kept_with_subtree [OF m] m a n by blast
qed

text \<open>
  Claim C5, as stated, fails: a query of one space is blank after trimming, but it is
  not trimmed; it is searched for, and the forest that holds the agency EPA alone
  is filtered to the empty forest.
\<close>

theorem blank_query_counterexample:
  "fst (filteredAgencies (example_state [example_agency ''EPA'' [] []] '' '')) = []
   \<and> agencies (example_state [example_agency ''EPA'' [] []] '' '') =
       [example_agency ''EPA'' [] []]"
  by code_simp

text \<open>
  Claim C5, amended. When the query is the empty string, \<open>filteredAgencies\<close> returns the
  forest of the \<open>agencies\<close> signal as it is and leaves the state as it is.
\<close>

theorem filteredAgencies_empty_query:
  "searchQuery st = [] \<Longrightarrow> filteredAgencies st = (agencies st, st)"
  by (simp add: filteredAgencies_def toLowerCase_def)

theorem filteredAgencies_empty_query_witness:
  "searchQuery (example_state example_forest []) = []
   \<and> filteredAgencies (example_state example_forest []) =
       (example_forest, example_state example_forest [])"
  using filteredAgencies_empty_query [of "example_state example_forest []"]
  by (simp add: example_state_def)

text \<open>
  Claim C6, as stated, fails: with the query \<open>alpha\<close> the returned forest holds Gamma, a
  child of the direct match Alpha, and Gamma neither matches nor has a matching
  descendant.
\<close>

theorem false_inclusion_counterexample:
  "example_agency ''Gamma'' [] [] \<in>
     set (forest_nodes (fst (filteredAgencies (example_state example_forest ''alpha''))))
   \<and> \<not> matches_directly ''alpha'' (example_agency ''Gamma'' [] [])
   \<and> \<not> has_matching_descendant ''alpha'' (example_agency ''Gamma'' [] [])"
  by code_simp

text \<open>
  Claim C6, amended. For every forest and every query: every root of the returned
  forest matches directly or has a matching descendant in the returned forest; so
  does every node of the returned forest that does not lie below a direct match (the
  subtree of a direct match is returned whole); and the returned forest arises from the
  input forest by deleting and pruning only, so the order of the input is kept at
  every level. Matching is the predicate of the specification: case-insensitive on the
  display name or name, plain containment on the rendered title numbers.
\<close>

theorem filtered_nodes_justified:
  "(\<forall>a \<in> set (fst (filteredAgencies st)).
      matches_directly (searchQuery st) a \<or> has_matching_descendant (searchQuery st) a)
   \<and> (\<forall>n \<in> set (concat (map (uncovered (searchQuery st)) (fst (filteredAgencies st)))).
      matches_directly (searchQuery st) n \<or> has_matching_descendant (searchQuery st) n)
   \<and> pruned_list (fst (filteredAgencies st)) (agencies st)"
proof (cases "searchQuery st = []")
  case True
  then show ?thesis
    by (simp add: filteredAgencies_fst matches_directly_Nil pruned_list_refl pruned_refl)
next
  case False
  let ?raw = "searchQuery st"
  let ?res = "fst (searchAgencies (agencies st) (toLowerCase ?raw))"
  have u: "\<forall>n \<in> set (concat (map (uncovered ?raw) ?res)).
             matches_directly ?raw n \<or> has_matching_descendant ?raw n"
    by (rule searchAgencies_uncovered)
  have "\<forall>a \<in> set ?res. a \<in> set (concat (map (uncovered ?raw) ?res))"
    using uncovered_self by auto
  then have r: "\<forall>a \<in> set ?res. matches_directly ?raw a \<or> has_matching_descendant ?raw a"
    using u by blast
  have p: "pruned_list ?res (agencies st)"
    by (rule searchAgencies_pruned)
  show ?thesis
    using False u r p by (simp add: filteredAgencies_fst)
qed

theorem filtered_nodes_justified_witness:
  "fst (filteredAgencies (example_state example_forest ''40'')) = example_forest_pruned
   \<and> has_matching_descendant ''40'' (example_agency ''Alpha'' [] [example_agency ''Beta'' [40] []])
   \<and> matches_directly ''40'' (example_agency ''Beta'' [40] [])
   \<and> pruned_list example_forest_pruned example_forest"
proof -
  have e: "fst (filteredAgencies (example_state example_forest ''40'')) = example_forest_pruned"
    by code_simp
  have q: "searchQuery (example_state example_forest ''40'') = ''40''"
    by (simp add: example_state_def)
  have a: "agencies (example_state example_forest ''40'') = example_forest"
    by (simp add: example_state_def)
  have m: "matches_directly ''40'' (example_agency ''Beta'' [40] [])"
    by code_simp
  have n: "\<not> matches_directly ''40'' (example_agency ''Alpha'' [] [example_agency ''Beta'' [40] []])"
    by code_simp
  show ?thesis
    using filtered_nodes_justified [of "example_state example_forest ''40''"] n m
    by (simp add: e q a example_forest_pruned_def)
qed

subsection \<open>The single-title refresh\<close>

lemma loadTitleWordCount_fetched_None:
  "fetched env t = None \<Longrightarrow> snd (loadTitleWordCount env t st) = Inr st"
  by (auto simp: fetched_def loadTitleWordCount_def loadTitleWordCount_try_def
           split: sum.splits option.splits if_splits)

lemma loadTitleWordCount_fetched_Some:
  "fetched env t = Some (w, d) \<Longrightarrow>
   snd (loadTitleWordCount env t st) =
     Inr (st\<lparr>titleData :=
            map (\<lambda>td. if title_data.title td = t
                       then td\<lparr>title_data.wordCount := w, lastUpdated := d\<rparr> else td)
              (titleData st)\<rparr>)"
  by (auto simp: fetched_def loadTitleWordCount_def loadTitleWordCount_try_def
           split: sum.splits option.splits if_splits)

lemma refresh_map_no_entry:
  "t \<notin> title_data.title ` set tds \<Longrightarrow>
   map (\<lambda>td. if title_data.title td = t then f td else td) tds = tds"
  by (induction tds) auto

lemma refresh_map_titles:
  "map title_data.title
     (map (\<lambda>td. if title_data.title td = t
                 then td\<lparr>title_data.wordCount := w, lastUpdated := d\<rparr> else td) tds)
   = map title_data.title tds"
  by (induction tds) auto

text \<open>
  Claim C9. The promise of the single-title refresh for \<open>t\<close> is always fulfilled, and
  the refresh writes no signal other than \<open>titleData\<close>. The array keeps its length; an
  entry whose title is not \<open>t\<close> is the entry that was there before; an entry whose
  title is \<open>t\<close> gets the fetched word count and date when the fetch succeeds. When the
  fetch fails, or the body has no word count or a word count of zero, the whole state
  is what it was.
\<close>

theorem refresh_replaces_only_matching_entry:
  "\<exists>st'. snd (loadTitleWordCount env t st) = Inr st'
     \<and> st' = st\<lparr>titleData := titleData st'\<rparr>
     \<and> length (titleData st') = length (titleData st)
     \<and> (\<forall>i < length (titleData st).
           (title_data.title (titleData st ! i) \<noteq> t \<longrightarrow> titleData st' ! i = titleData st ! i)
         \<and> (title_data.title (titleData st ! i) = t \<longrightarrow>
              titleData st' ! i =
                (case fetched env t of
                   None \<Rightarrow> titleData st ! i
                 | Some (w, d) \<Rightarrow>
                     (titleData st ! i)\<lparr>title_data.wordCount := w, lastUpdated := d\<rparr>)))
     \<and> (fetched env t = None \<longrightarrow> st' = st)"
proof (cases "fetched env t")
  case None
  then show ?thesis by (simp add: loadTitleWordCount_fetched_None)
next
  case (Some p)
  obtain w d where p: "p = (w, d)" by (cases p)
  show ?thesis
    using Some by (simp add: p loadTitleWordCount_fetched_Some)
qed

theorem refresh_replaces_only_matching_entry_witness:
  "snd (loadTitleWordCount (example_env [] []) 3 example_loaded) =
     Inr (example_loaded\<lparr>titleData :=
            [example_entry 1,
             \<lparr>title_data.title = 3, wordCount = 1003, lastUpdated = ''2025-02-02''\<rparr>,
             example_entry 4]\<rparr>)
   \<and> fetched (example_env [] []) 3 = Some (1003, ''2025-02-02'')
   \<and> snd (loadTitleWordCount (example_env [3] []) 3 example_loaded) = Inr example_loaded
   \<and> fetched (example_env [3] []) 3 = None"
  using refresh_replaces_only_matching_entry [of "example_env [] []" 3 example_loaded]
    refresh_replaces_only_matching_entry [of "example_env [3] []" 3 example_loaded]
  by (simp add: loadTitleWordCount_def loadTitleWordCount_try_def example_env_def
        example_loaded_def example_state_def example_entry_def date_or_now_def fetched_def)

text \<open>
  Claim C10. The single-title refresh never adds an entry: the titles of \<open>titleData\<close>
  after the refresh are the titles before it, in the same order, and when \<open>t\<close> has no
  entry the state after the refresh is the state before it, however the fetch settles.
\<close>

theorem refresh_never_adds_entry:
  "\<exists>st'. snd (loadTitleWordCount env t st) = Inr st'
     \<and> map title_data.title (titleData st') = map title_data.title (titleData st)
     \<and> (t \<notin> set (map title_data.title (titleData st)) \<longrightarrow> st' = st)"
proof (cases "fetched env t")
  case None
  then show ?thesis by (simp add: loadTitleWordCount_fetched_None)
next
  case (Some p)
  obtain w d where p: "p = (w, d)" by (cases p)
  have "t \<notin> set (map title_data.title (titleData st)) \<Longrightarrow>
        st\<lparr>titleData := map (\<lambda>td. if title_data.title td = t
                       then td\<lparr>title_data.wordCount := w, lastUpdated := d\<rparr> else td)
              (titleData st)\<rparr> = st"
    by (simp add: refresh_map_no_entry)
  then show ?thesis
    using Some by (simp add: p loadTitleWordCount_fetched_Some refresh_map_titles)
qed

theorem refresh_never_adds_entry_witness:
  "5 \<notin> set (map title_data.title (titleData example_loaded))
   \<and> fetched (example_env [] []) 5 = Some (1005, ''2025-02-02'')
   \<and> snd (loadTitleWordCount (example_env [] []) 5 example_loaded) = Inr example_loaded"
  using refresh_never_adds_entry [of "example_env [] []" 5 example_loaded]
  by (simp add: loadTitleWordCount_def loadTitleWordCount_try_def example_env_def
        example_loaded_def example_state_def example_entry_def date_or_now_def fetched_def)

subsection \<open>Selecting an agency and a title\<close>

lemma fetch_title_entry_of: "fetch_title env t = Inr (entry_of env t)"
  by (simp add: fetch_title_def fetch_title_try_def entry_of_def fetched_def
           split: sum.splits option.splits)

lemma promise_all_fulfilled: "promise_all (map (\<lambda>x. Inr (f x)) xs) = Inr (map f xs)"
  by (induction xs) simp_all

text \<open>The entries that a list of titles yields: one for each title whose fetch succeeds.\<close>

lemma process_batches_result:
  "process_batches env bs acc tr =
     (tr @ concat (map (batch_events env) bs),
      Inr (acc @ map the (filter (\<lambda>d. d \<noteq> None) (map (entry_of env) (concat bs)))))"
proof (induction bs arbitrary: acc tr)
  case Nil
  then show ?case by simp
next
  case (Cons b bs)
  have "fetch_title env = (\<lambda>t. Inr (entry_of env t))"
    by (rule ext) (rule fetch_title_entry_of)
  then have "promise_all (map (fetch_title env) b) = Inr (map (entry_of env) b)"
    by (simp add: promise_all_fulfilled)
  then show ?case
    by (simp add: Cons.IH batch_events_def)
qed

lemma entries_titles:
  "map title_data.title (map the (filter (\<lambda>d. d \<noteq> None) (map (entry_of env) ts))) =
     filter (\<lambda>t. fetched env t \<noteq> None) ts"
  by (induction ts) (auto simp: entry_of_def)

lemma set_valid_results:
  "td \<in> set (map the (filter (\<lambda>d. d \<noteq> None) xs)) \<longleftrightarrow> Some td \<in> set xs"
  by (induction xs) auto

lemma entry_of_Some:
  "entry_of env t = Some td \<Longrightarrow>
   fetched env (title_data.title td) = Some (title_data.wordCount td, lastUpdated td)"
  by (cases "fetched env t") (auto simp: entry_of_def)

lemma entries_fetched:
  "td \<in> set (map the (filter (\<lambda>d. d \<noteq> None) (map (entry_of env) ts))) \<Longrightarrow>
   fetched env (title_data.title td) = Some (title_data.wordCount td, lastUpdated td)"
  by (auto simp: set_valid_results dest: entry_of_Some)


lemma array_from_set_foldl:
  "set (foldl (\<lambda>seen x. if x \<in> set seen then seen else seen @ [x]) acc xs) = set acc \<union> set xs
   \<and> (distinct acc \<longrightarrow>
        distinct (foldl (\<lambda>seen x. if x \<in> set seen then seen else seen @ [x]) acc xs))"
  by (induction xs arbitrary: acc) auto

lemma set_array_from_set: "set (array_from_set xs) = set xs"
  using array_from_set_foldl [of "[]" xs] by (simp add: array_from_set_def)

lemma distinct_array_from_set: "distinct (array_from_set xs)"
  using array_from_set_foldl [of "[]" xs] by (simp add: array_from_set_def)

lemma array_from_set_Nil: "array_from_set [] = []"
  by (simp add: array_from_set_def)

lemma concat_make_batches:
  "concat (make_batches xs i acc) = concat acc @ drop i xs"
proof (induction xs i acc rule: make_batches.induct)
  case (1 xs i acc)
  show ?case
  proof (cases "i < length xs")
    case True
    have split: "slice xs i (i + batchSize) @ drop (i + batchSize) xs = drop i xs"
      using append_take_drop_id [of batchSize "drop i xs"]
      by (simp add: slice_def add.commute)
    have "concat (make_batches xs i acc) =
            concat (acc @ [slice xs i (i + batchSize)]) @ drop (i + batchSize) xs"
      using True 1 by (subst make_batches.simps) simp
    also have "\<dots> = concat acc @ (slice xs i (i + batchSize) @ drop (i + batchSize) xs)"
      by simp
    finally show ?thesis by (simp only: split)
  next
    case False
    then show ?thesis by (subst make_batches.simps) simp
  qed
qed

lemma make_batches_sizes:
  "\<forall>b \<in> set acc. 0 < length b \<and> length b \<le> 5 \<Longrightarrow>
   \<forall>b \<in> set (make_batches xs i acc). 0 < length b \<and> length b \<le> 5"
proof (induction xs i acc rule: make_batches.induct)
  case (1 xs i acc)
  show ?case
  proof (cases "i < length xs")
    case True
    have "0 < length (slice xs i (i + batchSize)) \<and> length (slice xs i (i + batchSize)) \<le> 5"
      using True by (simp add: slice_def batchSize_def)
    then have "\<forall>b \<in> set (acc @ [slice xs i (i + batchSize)]). 0 < length b \<and> length b \<le> 5"
      using "1.prems" by simp
    then have "\<forall>b \<in> set (make_batches xs (i + batchSize) (acc @ [slice xs i (i + batchSize)])).
                 0 < length b \<and> length b \<le> 5"
      using True by (intro "1.IH") 
    then show ?thesis using True by (subst make_batches.simps) simp
  next
    case False
    then show ?thesis using "1.prems" by (subst make_batches.simps) simp
  qed
qed

lemma loadTitleData_result:
  "loadTitleData env a st =
     (concat (map (batch_events env)
        (make_batches (array_from_set (map cfr_reference.title (cfr_references a))) 0 [])),
      Inr (st\<lparr>titleData :=
             map the (filter (\<lambda>d. d \<noteq> None)
               (map (entry_of env)
                  (array_from_set (map cfr_reference.title (cfr_references a)))))\<rparr>))"
proof (cases "cfr_references a = []")
  case True
  have "make_batches [] 0 [] = ([] :: int list list)"
    by (subst make_batches.simps) simp
  then show ?thesis
    using True by (simp add: loadTitleData_def loadTitleData_try_def array_from_set_Nil)
next
  case False
  then show ?thesis
    by (simp add: loadTitleData_def loadTitleData_try_def Let_def process_batches_result
          concat_make_batches)
qed
text \<open>
  For an agency without references the load is over at line 149, before any request:
  the synchronous part of \<^verbatim>\<open>selectAgency\<close> has then already emptied \<open>titleData\<close>.
\<close>

lemma loadTitleData_no_references:
  "cfr_references a = [] \<Longrightarrow>
   loadTitleData env a st = ([], Inr (st\<lparr>titleData := []\<rparr>))
   \<and> selectAgency_sync a st =
       st\<lparr>selectedAgency := Some a, selectedTitle := None, titleData := []\<rparr>"
  by (simp add: loadTitleData_def loadTitleData_try_def selectAgency_sync_def)




text \<open>
  Claim C3, as stated, fails: with no agency selected, \<^verbatim>\<open>selectTitle(7)\<close> sets
  \<open>selectedTitle\<close> to 7 and issues the word-count request for title 7.
\<close>

theorem selectTitle_invalid_counterexample:
  "selectedAgency (example_state example_forest []) = None
   \<and> selectedTitle (example_state example_forest []) = None
   \<and> selectTitle (example_env [] []) 7 (example_state example_forest []) =
       ([Issue 7, Settle 7],
        Inr ((example_state example_forest [])\<lparr>selectedTitle := Some 7\<rparr>))"
  by code_simp

text \<open>
  Claim C3, amended. \<^verbatim>\<open>selectTitle(t)\<close> does not look at the selected agency: for every
  title \<open>t\<close> it sets \<open>selectedTitle\<close> to \<open>t\<close> and issues one word-count request for \<open>t\<close>.
  Its promise is always fulfilled, so nothing is surfaced. No other signal than
  \<open>selectedTitle\<close> and \<open>titleData\<close> is written, the titles of \<open>titleData\<close> stay the same,
  and when \<open>t\<close> has no entry \<open>titleData\<close> is left as it was.
\<close>

theorem selectTitle_unconditional:
  "\<exists>st'. selectTitle env t st = ([Issue t, Settle t], Inr st')
     \<and> selectedTitle st' = Some t
     \<and> st' = st\<lparr>selectedTitle := Some t, titleData := titleData st'\<rparr>
     \<and> map title_data.title (titleData st') = map title_data.title (titleData st)
     \<and> (t \<notin> set (map title_data.title (titleData st)) \<longrightarrow> titleData st' = titleData st)"
proof (cases "fetched env t")
  case None
  then have "snd (loadTitleWordCount env t (st\<lparr>selectedTitle := Some t\<rparr>)) =
      Inr (st\<lparr>selectedTitle := Some t\<rparr>)"
    by (rule loadTitleWordCount_fetched_None)
  then show ?thesis
    by (simp add: selectTitle_def loadTitleWordCount_def)
next
  case (Some p)
  obtain w d where p: "p = (w, d)" by (cases p)
  have "snd (loadTitleWordCount env t (st\<lparr>selectedTitle := Some t\<rparr>)) =
     Inr (st\<lparr>selectedTitle := Some t,
            titleData :=
              map (\<lambda>td. if title_data.title td = t
                         then td\<lparr>title_data.wordCount := w, lastUpdated := d\<rparr> else td)
                (titleData st)\<rparr>)"
    using Some p loadTitleWordCount_fetched_Some [of env t w d "st\<lparr>selectedTitle := Some t\<rparr>"]
    by simp
  then show ?thesis
    by (simp add: selectTitle_def loadTitleWordCount_def refresh_map_titles
          refresh_map_no_entry)
qed

theorem selectTitle_unconditional_witness:
  "selectTitle (example_env [] []) 5 example_busy =
     ([Issue 5, Settle 5], Inr (example_busy\<lparr>selectedTitle := Some 5\<rparr>))
   \<and> 5 \<notin> set (map title_data.title (titleData example_busy))
   \<and> 5 \<notin> set (map cfr_reference.title (cfr_references (example_agency ''Old'' [1, 3, 4] [])))"
proof -
  have e: "selectTitle (example_env [] []) 5 example_busy =
     ([Issue 5, Settle 5], Inr (example_busy\<lparr>selectedTitle := Some 5\<rparr>))"
    by code_simp
  have n: "5 \<notin> set (map title_data.title (titleData example_busy))"
    by code_simp
  have m: "5 \<notin> set (map cfr_reference.title (cfr_references (example_agency ''Old'' [1, 3, 4] [])))"
    by code_simp
  show ?thesis
    using selectTitle_unconditional [of "example_env [] []" 5 example_busy] e n m
    by simp
qed

subsection \<open>The bulk load\<close>

text \<open>
  Claim C8. The promise of \<^verbatim>\<open>loadTitleData\<close> is always fulfilled and only \<open>titleData\<close> is
  written. The titles of the entries of \<open>titleData\<close> are the distinct referenced titles
  whose fetch succeeded, each once, in the order of first reference; a title whose
  request is rejected, or answered without a word count or with a word count of zero,
  has no entry and stops nothing. Each entry carries the fetched word count and date.
\<close>

theorem loadTitleData_partial_failure:
  "\<exists>st'. snd (loadTitleData env a st) = Inr st'
     \<and> st' = st\<lparr>titleData := titleData st'\<rparr>
     \<and> map title_data.title (titleData st') =
         filter (\<lambda>t. fetched env t \<noteq> None)
           (array_from_set (map cfr_reference.title (cfr_references a)))
     \<and> distinct (map title_data.title (titleData st'))
     \<and> (\<forall>td \<in> set (titleData st').
           fetched env (title_data.title td) =
             Some (title_data.wordCount td, lastUpdated td))"
proof -
  let ?uniq = "array_from_set (map cfr_reference.title (cfr_references a))"
  let ?tds = "map the (filter (\<lambda>d. d \<noteq> None) (map (entry_of env) ?uniq))"
  have r: "snd (loadTitleData env a st) = Inr (st\<lparr>titleData := ?tds\<rparr>)"
    by (simp add: loadTitleData_result)
  have t: "map title_data.title ?tds = filter (\<lambda>t. fetched env t \<noteq> None) ?uniq"
    by (rule entries_titles)
  have d: "distinct (map title_data.title ?tds)"
    by (simp only: t) (simp add: distinct_array_from_set)
  have f: "\<forall>td \<in> set ?tds.
      fetched env (title_data.title td) = Some (title_data.wordCount td, lastUpdated td)"
    using entries_fetched by blast
  have "snd (loadTitleData env a st) = Inr (st\<lparr>titleData := ?tds\<rparr>)
     \<and> st\<lparr>titleData := ?tds\<rparr> = st\<lparr>titleData := titleData (st\<lparr>titleData := ?tds\<rparr>)\<rparr>
     \<and> map title_data.title (titleData (st\<lparr>titleData := ?tds\<rparr>)) =
         filter (\<lambda>t. fetched env t \<noteq> None) ?uniq
     \<and> distinct (map title_data.title (titleData (st\<lparr>titleData := ?tds\<rparr>)))
     \<and> (\<forall>td \<in> set (titleData (st\<lparr>titleData := ?tds\<rparr>)).
           fetched env (title_data.title td) =
             Some (title_data.wordCount td, lastUpdated td))"
    using r t d f by simp
  then show ?thesis by (rule exI)
qed

theorem loadTitleData_partial_failure_witness:
  "map title_data.title (titleData (example_state [] [])) = []
   \<and> snd (loadTitleData (example_env [5] []) example_seven (example_state [] [])) =
       Inr ((example_state [] [])\<lparr>titleData :=
              [\<lparr>title_data.title = 1, wordCount = 1001, lastUpdated = ''2025-02-02''\<rparr>,
               \<lparr>title_data.title = 2, wordCount = 1002, lastUpdated = ''2025-02-02''\<rparr>,
               \<lparr>title_data.title = 3, wordCount = 1003, lastUpdated = ''2025-02-02''\<rparr>,
               \<lparr>title_data.title = 4, wordCount = 1004, lastUpdated = ''2025-02-02''\<rparr>,
               \<lparr>title_data.title = 6, wordCount = 1006, lastUpdated = ''2025-02-02''\<rparr>]\<rparr>)
   \<and> map title_data.title
        (case snd (loadTitleData (example_env [] [2]) example_seven (example_state [] [])) of
           Inl e \<Rightarrow> [] | Inr st' \<Rightarrow> titleData st') = [1, 3, 4, 5, 6]"
proof -
  have e: "snd (loadTitleData (example_env [5] []) example_seven (example_state [] [])) =
       Inr ((example_state [] [])\<lparr>titleData :=
              [\<lparr>title_data.title = 1, wordCount = 1001, lastUpdated = ''2025-02-02''\<rparr>,
               \<lparr>title_data.title = 2, wordCount = 1002, lastUpdated = ''2025-02-02''\<rparr>,
               \<lparr>title_data.title = 3, wordCount = 1003, lastUpdated = ''2025-02-02''\<rparr>,
               \<lparr>title_data.title = 4, wordCount = 1004, lastUpdated = ''2025-02-02''\<rparr>,
               \<lparr>title_data.title = 6, wordCount = 1006, lastUpdated = ''2025-02-02''\<rparr>]\<rparr>)"
    by code_simp
  have z: "map title_data.title
        (case snd (loadTitleData (example_env [] [2]) example_seven (example_state [] [])) of
           Inl e \<Rightarrow> [] | Inr st' \<Rightarrow> titleData st') = [1, 3, 4, 5, 6]"
    by code_simp
  show ?thesis
    using loadTitleData_partial_failure [of "example_env [5] []" example_seven
        "example_state [] []"] e z
    by (simp add: example_state_def)
qed

subsection \<open>Traces\<close>

lemma issued_append: "issued (es @ fs) = issued es @ issued fs"
  by (induction es rule: issued.induct) simp_all

lemma issued_map_Issue: "issued (map Issue b) = b"
  by (induction b) simp_all

lemma issued_map_Settle: "issued (map Settle s) = []"
  by (induction s) simp_all

lemma in_flight_append: "in_flight (es @ fs) p = in_flight fs (in_flight es p)"
  by (induction es p rule: in_flight.induct) simp_all

lemma in_flight_map_Issue: "in_flight (map Issue b) p = p @ b"
  by (induction b arbitrary: p) simp_all

lemma length_in_flight: "length (in_flight es p) \<le> length p + length (issued es)"
proof (induction es p rule: in_flight.induct)
  case (1 p)
  then show ?case by simp
next
  case (2 t es p)
  then show ?case by simp
next
  case (3 t es p)
  have "length (remove1 t p) \<le> length p"
    by (simp add: length_remove1)
  then show ?case using 3 by simp
qed

lemma prefix_issued_length: "prefix p es \<Longrightarrow> length (issued p) \<le> length (issued es)"
  by (auto simp: prefix_def issued_append)

lemma distinct_concat_elem: "distinct (concat bs) \<Longrightarrow> b \<in> set bs \<Longrightarrow> distinct b"
  by (induction bs) auto

subsection \<open>The steps of the bulk load\<close>

lemma batch_map_eq: "batch_map b tr = (map (\<lambda>t. (t, None)) b, tr @ map Issue b)"
  by (induction b arbitrary: tr) (simp_all add: fetch_title_call_def http_get_def)

lemma promise_all_state_not_rejected:
  "\<forall>p \<in> set ps. \<forall>e. p \<noteq> Some (Inl e) \<Longrightarrow> promise_all_state ps \<noteq> Some (Inl e')"
  by (induction ps rule: promise_all_state.induct) (auto split: option.splits sum.splits)

lemma promise_all_state_pending:
  "None \<in> set ps \<Longrightarrow> \<forall>p \<in> set ps. \<forall>e. p \<noteq> Some (Inl e) \<Longrightarrow> promise_all_state ps = None"
proof (induction ps rule: promise_all_state.induct)
  case 1
  then show ?case by simp
next
  case (2 e ps)
  then show ?case by simp
next
  case (3 ps)
  then have "\<forall>e. promise_all_state ps \<noteq> Some (Inl e)"
    using promise_all_state_not_rejected [of ps] by simp
  then show ?case by (auto split: option.splits sum.splits)
next
  case (4 x ps)
  then have "promise_all_state ps = None" by simp
  then show ?case by simp
qed

lemma promise_all_state_fulfilled:
  "promise_all_state (map (\<lambda>x. Some (Inr (f x))) xs) = Some (Inr (map f xs))"
  by (induction xs) simp_all

lemma entries_append: "entries env (xs @ ys) = entries env xs @ entries env ys"
  by (simp add: entries_def)

lemma entries_Nil: "entries env [] = []"
  by (simp add: entries_def)

lemma pending_awaiting: "pending (awaiting env rest b S acc tr) = filter (\<lambda>t. t \<notin> S) b"
  by (induction b) (auto simp: pending_def awaiting_def)

lemma run_loop_Cons:
  assumes "b \<noteq> []"
  shows "run_loop (b # rest) acc tr = awaiting env rest b {} acc (tr @ map Issue b)"
proof -
  have "promise_all_state (map snd (map (\<lambda>t. (t, None)) b)) =
          (None :: (exn + title_data option list) option)"
    using assms by (intro promise_all_state_pending) (cases b, auto)
  then show ?thesis
    by (simp add: batch_map_eq awaiting_def)
qed

lemma settle_promise_awaiting:
  "distinct b \<Longrightarrow> t \<in> set b \<Longrightarrow> t \<notin> S \<Longrightarrow>
   settle_promise env t (map (\<lambda>u. (u, if u \<in> S then Some (fetch_title env u) else None)) b) =
     map (\<lambda>u. (u, if u \<in> insert t S then Some (fetch_title env u) else None)) b"
  by (induction b) auto

lemma awaiting_pending_state:
  assumes "\<not> set b \<subseteq> S"
  shows "promise_all_state
           (map snd (map (\<lambda>u. (u, if u \<in> S then Some (fetch_title env u) else None)) b)) = None"
proof (rule promise_all_state_pending)
  obtain u where "u \<in> set b" "u \<notin> S" using assms by auto
  then show "None \<in> set (map snd (map (\<lambda>u. (u, if u \<in> S then Some (fetch_title env u) else None)) b))"
    by force
  show "\<forall>p \<in> set (map snd (map (\<lambda>u. (u, if u \<in> S then Some (fetch_title env u) else None)) b)).
          \<forall>e. p \<noteq> Some (Inl e)"
    by (auto simp: fetch_title_entry_of)
qed

lemma awaiting_fulfilled_state:
  assumes "set b \<subseteq> S"
  shows "promise_all_state
           (map snd (map (\<lambda>u. (u, if u \<in> S then Some (fetch_title env u) else None)) b)) =
         Some (Inr (map (entry_of env) b))"
proof -
  have "map snd (map (\<lambda>u. (u, if u \<in> S then Some (fetch_title env u) else None)) b) =
        map (\<lambda>u. Some (Inr (entry_of env u))) b"
    using assms by (auto simp: fetch_title_entry_of)
  then show ?thesis by (simp only: promise_all_state_fulfilled)
qed

lemma settle_awaiting_idle:
  "t \<notin> set b \<or> t \<in> S \<Longrightarrow>
   settle env t (awaiting env rest b S acc tr) = awaiting env rest b S acc tr"
  by (auto simp: settle_def pending_awaiting)

lemma settle_awaiting_more:
  assumes "distinct b" "t \<in> set b" "t \<notin> S" "\<not> set b \<subseteq> insert t S"
  shows "settle env t (awaiting env rest b S acc tr) =
           awaiting env rest b (insert t S) acc (tr @ [Settle t])"
proof -
  have p: "t \<in> set (pending (awaiting env rest b S acc tr))"
    using assms by (simp add: pending_awaiting)
  have u: "(awaiting env rest b S acc tr)
             \<lparr>batchPromises := settle_promise env t (batchPromises (awaiting env rest b S acc tr)),
              http_trace := http_trace (awaiting env rest b S acc tr) @ [Settle t]\<rparr> =
           awaiting env rest b (insert t S) acc (tr @ [Settle t])"
    using assms settle_promise_awaiting [of b t S env] by (simp add: awaiting_def)
  have "loop_resume (awaiting env rest b (insert t S) acc (tr @ [Settle t])) =
          awaiting env rest b (insert t S) acc (tr @ [Settle t])"
    using awaiting_pending_state [OF assms(4), of env]
    by (simp add: loop_resume_def awaiting_def)
  then show ?thesis
    using p u by (simp add: settle_def)
qed

lemma settle_awaiting_last:
  assumes "distinct b" "t \<in> set b" "t \<notin> S" "set b \<subseteq> insert t S"
  shows "settle env t (awaiting env rest b S acc tr) =
           run_loop rest (acc @ entries env b) (tr @ [Settle t])"
proof -
  have p: "t \<in> set (pending (awaiting env rest b S acc tr))"
    using assms by (simp add: pending_awaiting)
  have u: "(awaiting env rest b S acc tr)
             \<lparr>batchPromises := settle_promise env t (batchPromises (awaiting env rest b S acc tr)),
              http_trace := http_trace (awaiting env rest b S acc tr) @ [Settle t]\<rparr> =
           awaiting env rest b (insert t S) acc (tr @ [Settle t])"
    using assms settle_promise_awaiting [of b t S env] by (simp add: awaiting_def)
  have "loop_resume (awaiting env rest b (insert t S) acc (tr @ [Settle t])) =
          run_loop rest (acc @ entries env b) (tr @ [Settle t])"
    using awaiting_fulfilled_state [OF assms(4), of env]
    by (simp add: loop_resume_def awaiting_def entries_def)
  then show ?thesis
    using p u by (simp add: settle_def)
qed

lemma settle_over: "settle env t (run_loop [] acc tr) = run_loop [] acc tr"
  by (simp add: settle_def pending_def)

subsection \<open>What the steps can reach\<close>

lemma remove1_filter_distinct:
  assumes "distinct b"
  shows "remove1 t (filter (\<lambda>u. u \<notin> S) b) = filter (\<lambda>u. u \<notin> insert t S) b"
proof -
  have "distinct (filter (\<lambda>u. u \<notin> S) b)" using assms by simp
  then have "remove1 t (filter (\<lambda>u. u \<notin> S) b) = filter (\<lambda>u. t \<noteq> u) (filter (\<lambda>u. u \<notin> S) b)"
    by (simp add: distinct_remove1_removeAll removeAll_filter_not_eq)
  also have "\<dots> = filter (\<lambda>u. u \<notin> insert t S) b"
    by (auto intro: filter_cong)
  finally show ?thesis .
qed

lemma reached_at_loop_head:
  assumes "\<forall>b \<in> set bs. b \<noteq> []" "k \<le> length bs" "batched bs k [] tr"
  shows "reached env bs (run_loop (drop k bs) (entries env (concat (take k bs))) tr)"
proof (cases "k = length bs")
  case True
  then show ?thesis using assms(3) by (simp add: reached_def)
next
  case False
  then have k: "k < length bs" using assms(2) by simp
  then have d: "drop k bs = bs ! k # drop (Suc k) bs"
    by (simp add: Cons_nth_drop_Suc)
  have ne: "bs ! k \<noteq> []" using assms(1) k by simp
  have r: "run_loop (drop k bs) (entries env (concat (take k bs))) tr =
      awaiting env (drop (Suc k) bs) (bs ! k) {} (entries env (concat (take k bs)))
        (tr @ map Issue (bs ! k))"
    by (simp only: d run_loop_Cons [OF ne])
  have b: "batched bs (Suc k) (filter (\<lambda>t. t \<notin> {}) (bs ! k)) (tr @ map Issue (bs ! k))"
    using batched_issue [OF assms(3) k] by simp
  have n: "\<not> set (bs ! k) \<subseteq> {}" using ne by simp
  have h: "http_trace (awaiting env (drop (Suc k) bs) (bs ! k) {}
             (entries env (concat (take k bs))) (tr @ map Issue (bs ! k))) =
           tr @ map Issue (bs ! k)"
    by (simp add: awaiting_def)
  show ?thesis
    unfolding reached_def r h using k n b by blast
qed

lemma reached_settle:
  assumes good: "\<forall>b \<in> set bs. b \<noteq> [] \<and> distinct b"
    and r: "reached env bs r"
  shows "reached env bs (settle env t r)"
  using r [unfolded reached_def]
proof (elim disjE exE conjE)
  fix k S
  let ?b = "bs ! k"
  let ?acc = "entries env (concat (take k bs))"
  let ?tr = "http_trace r"
  assume k: "k < length bs" and n: "\<not> set ?b \<subseteq> S"
    and eq: "r = awaiting env (drop (Suc k) bs) ?b S ?acc ?tr"
    and b: "batched bs (Suc k) (filter (\<lambda>t. t \<notin> S) ?b) ?tr"
  have d: "distinct ?b" using good k by simp
  show "reached env bs (settle env t r)"
  proof (cases "t \<notin> set ?b \<or> t \<in> S")
    case True
    then have "settle env t r = r"
      using settle_awaiting_idle [of t ?b S env "drop (Suc k) bs" ?acc ?tr] eq by simp
    then show ?thesis using r by simp
  next
    case False
    then have t: "t \<in> set ?b" "t \<notin> S" by auto
    then have tp: "t \<in> set (filter (\<lambda>u. u \<notin> S) ?b)" by simp
    have b': "batched bs (Suc k) (filter (\<lambda>u. u \<notin> insert t S) ?b) (?tr @ [Settle t])"
      using batched_settle [OF b tp] by (simp only: remove1_filter_distinct [OF d])
    show ?thesis
    proof (cases "set ?b \<subseteq> insert t S")
      case False
      have s: "settle env t r =
          awaiting env (drop (Suc k) bs) ?b (insert t S) ?acc (?tr @ [Settle t])"
        using settle_awaiting_more [OF d t False, of env "drop (Suc k) bs" ?acc ?tr] eq
        by simp
      have h: "http_trace (settle env t r) = ?tr @ [Settle t]"
        by (simp add: s awaiting_def)
      have "settle env t r =
          awaiting env (drop (Suc k) bs) ?b (insert t S) ?acc (http_trace (settle env t r))"
        using s h by simp
      moreover have "batched bs (Suc k) (filter (\<lambda>u. u \<notin> insert t S) ?b)
          (http_trace (settle env t r))"
        using b' h by simp
      ultimately show ?thesis
        unfolding reached_def using k False by blast
    next
      case True
      have s: "settle env t r =
          run_loop (drop (Suc k) bs) (?acc @ entries env ?b) (?tr @ [Settle t])"
        using settle_awaiting_last [OF d t True, of env "drop (Suc k) bs" ?acc ?tr] eq
        by simp
      have a: "?acc @ entries env ?b = entries env (concat (take (Suc k) bs))"
        using k by (simp add: take_Suc_conv_app_nth entries_append)
      have e: "filter (\<lambda>u. u \<notin> insert t S) ?b = []"
        using True by (auto simp: filter_empty_conv)
      have "batched bs (Suc k) [] (?tr @ [Settle t])"
        using b' by (simp only: e)
      then have "reached env bs
          (run_loop (drop (Suc k) bs) (entries env (concat (take (Suc k) bs))) (?tr @ [Settle t]))"
        using good k by (intro reached_at_loop_head) auto
      then show ?thesis by (simp only: s a)
    qed
  qed
next
  assume eq: "r = run_loop [] (entries env (concat bs)) (http_trace r)"
    and b: "batched bs (length bs) [] (http_trace r)"
  have "settle env t r = r"
    using settle_over [of env t "entries env (concat bs)" "http_trace r"] eq by simp
  then show "reached env bs (settle env t r)"
    using r by simp
qed

lemma reached_steps:
  assumes "\<forall>b \<in> set bs. b \<noteq> [] \<and> distinct b"
  shows "reached env bs r \<Longrightarrow> reached env bs (foldl (\<lambda>r t. settle env t r) r schedule)"
  by (induction schedule arbitrary: r) (simp_all add: reached_settle [OF assms])

lemma reached_start:
  assumes "\<forall>b \<in> set bs. b \<noteq> [] \<and> distinct b"
  shows "reached env bs (run_loop bs [] [])"
  using reached_at_loop_head [of bs 0 "[]" env] assms
  by (simp add: entries_Nil batched_start)

subsection \<open>What a batched trace is like\<close>

lemma batched_issued:
  "batched bs k pend tr \<Longrightarrow> k \<le> length bs \<and> issued tr = concat (take k bs)"
proof (induction rule: batched.induct)
  case batched_start
  then show ?case by simp
next
  case (batched_settle k pend tr t)
  then show ?case by (simp add: issued_append)
next
  case (batched_issue k tr)
  then show ?case
    by (simp add: issued_append issued_map_Issue take_Suc_conv_app_nth)
qed

lemma batched_in_flight: "batched bs k pend tr \<Longrightarrow> in_flight tr [] = pend"
  by (induction rule: batched.induct) (simp_all add: in_flight_append in_flight_map_Issue)

lemma batched_settled:
  "batched bs k pend tr \<Longrightarrow> \<forall>t \<in> set (issued tr). t \<in> set pend \<or> Settle t \<in> set tr"
proof (induction rule: batched.induct)
  case batched_start
  then show ?case by simp
next
  case (batched_settle k pend tr t)
  show ?case
  proof
    fix u
    assume "u \<in> set (issued (tr @ [Settle t]))"
    then have "u \<in> set pend \<or> Settle u \<in> set tr"
      using batched_settle.IH by (simp add: issued_append)
    then show "u \<in> set (remove1 t pend) \<or> Settle u \<in> set (tr @ [Settle t])"
      by (cases "u = t") (auto simp: in_set_remove1)
  qed
next
  case (batched_issue k tr)
  then show ?case by (auto simp: issued_append issued_map_Issue)
qed

lemma batched_bound:
  assumes "\<forall>b \<in> set bs. length b \<le> n"
  shows "batched bs k pend tr \<Longrightarrow>
         length pend \<le> n \<and> (\<forall>p. prefix p tr \<longrightarrow> length (in_flight p []) \<le> n)"
proof (induction rule: batched.induct)
  case batched_start
  then show ?case by simp
next
  case (batched_settle k pend tr t)
  have "length (remove1 t pend) \<le> length pend"
    by (simp add: length_remove1)
  then have l: "length (remove1 t pend) \<le> n"
    using batched_settle.IH by linarith
  have "in_flight (tr @ [Settle t]) [] = remove1 t pend"
    using batched_in_flight [OF batched_settle.hyps(1)] by (simp add: in_flight_append)
  then show ?case
    using batched_settle.IH l by (auto simp: prefix_snoc)
next
  case (batched_issue k tr)
  have l: "length (bs ! k) \<le> n"
    using assms batched_issue.hyps(2) by simp
  have e: "in_flight tr [] = []"
    by (rule batched_in_flight [OF batched_issue.hyps(1)])
  have "length (in_flight p []) \<le> n" if p: "prefix p (tr @ map Issue (bs ! k))" for p
  proof -
    from p have "prefix p tr \<or> (\<exists>q. p = tr @ q \<and> prefix q (map Issue (bs ! k)))"
      by (simp add: prefix_append)
    then show ?thesis
    proof
      assume "prefix p tr"
      then show ?thesis using batched_issue.IH by simp
    next
      assume "\<exists>q. p = tr @ q \<and> prefix q (map Issue (bs ! k))"
      then obtain q where q: "p = tr @ q" "prefix q (map Issue (bs ! k))" by blast
      have "length (in_flight q []) \<le> length (issued q)"
        using length_in_flight [of q "[]"] by simp
      also have "\<dots> \<le> length (issued (map Issue (bs ! k)))"
        using q(2) by (rule prefix_issued_length)
      also have "\<dots> \<le> n"
        using l by (simp add: issued_map_Issue)
      finally show ?thesis
        by (simp add: q(1) in_flight_append e)
    qed
  qed
  then show ?case using l by simp
qed

lemma batch_of_title:
  "distinct (concat bs) \<Longrightarrow> i < length bs \<Longrightarrow> j < length bs \<Longrightarrow>
   x \<in> set (bs ! i) \<Longrightarrow> x \<in> set (bs ! j) \<Longrightarrow> i = j"
proof (induction bs arbitrary: i j)
  case Nil
  then show ?case by simp
next
  case (Cons b bs)
  show ?case
  proof (cases i)
    case 0
    show ?thesis
    proof (cases j)
      case 0
      then show ?thesis using \<open>i = 0\<close> by simp
    next
      case (Suc j')
      then have "x \<in> set b" "x \<in> set (concat bs)"
        using Cons.prems \<open>i = 0\<close> by auto
      then show ?thesis using Cons.prems(1) by auto
    qed
  next
    case (Suc i')
    show ?thesis
    proof (cases j)
      case 0
      then have "x \<in> set b" "x \<in> set (concat bs)"
        using Cons.prems Suc by auto
      then show ?thesis using Cons.prems(1) by auto
    next
      case (Suc j')
      then have "i' = j'"
        using Cons.prems \<open>i = Suc i'\<close> by (intro Cons.IH) auto
      then show ?thesis using Suc \<open>i = Suc i'\<close> by simp
    qed
  qed
qed

lemma batch_in_take:
  "i < k \<Longrightarrow> k \<le> length bs \<Longrightarrow> set (bs ! i) \<subseteq> set (concat (take k bs))"
proof -
  assume ik: "i < k" and k: "k \<le> length bs"
  then have "take k bs ! i = bs ! i" "i < length (take k bs)" by simp_all
  then have "bs ! i \<in> set (take k bs)" by (metis nth_mem)
  then show ?thesis by auto
qed

text \<open>
  When a request of a batch is issued, every request of every earlier batch has
  settled.
\<close>

lemma batched_sequential:
  assumes "distinct (concat bs)"
  shows "batched bs k pend tr \<Longrightarrow>
         \<forall>p t' i j t. prefix (p @ [Issue t']) tr \<and> i < j \<and> j < length bs
              \<and> t \<in> set (bs ! i) \<and> t' \<in> set (bs ! j) \<longrightarrow> Settle t \<in> set p"
proof (induction rule: batched.induct)
  case batched_start
  then show ?case by simp
next
  case (batched_settle k pend tr t)
  then show ?case by (auto simp: prefix_snoc)
next
  case (batched_issue k tr)
  have k: "k \<le> length bs" and iss: "issued tr = concat (take k bs)"
    using batched_issued [OF batched_issue.hyps(1)] by simp_all
  have settled: "\<forall>t \<in> set (issued tr). Settle t \<in> set tr"
    using batched_settled [OF batched_issue.hyps(1)] by simp
  show ?case
  proof (intro allI impI, elim conjE)
    fix p t' i j t
    assume p: "prefix (p @ [Issue t']) (tr @ map Issue (bs ! k))"
      and ij: "i < j" "j < length bs" and t: "t \<in> set (bs ! i)" and t': "t' \<in> set (bs ! j)"
    from p have "prefix (p @ [Issue t']) tr
        \<or> (\<exists>q. p @ [Issue t'] = tr @ q \<and> prefix q (map Issue (bs ! k)))"
      by (simp add: prefix_append)
    then show "Settle t \<in> set p"
    proof
      assume "prefix (p @ [Issue t']) tr"
      then show ?thesis using batched_issue.IH ij t t' by blast
    next
      assume "\<exists>q. p @ [Issue t'] = tr @ q \<and> prefix q (map Issue (bs ! k))"
      then obtain q where q: "p @ [Issue t'] = tr @ q" "prefix q (map Issue (bs ! k))"
        by blast
      show ?thesis
      proof (cases "q = []")
        case True
        then have "prefix (p @ [Issue t']) tr" using q(1) by simp
        then show ?thesis using batched_issue.IH ij t t' by blast
      next
        case False
        then obtain q' e where qe: "q = q' @ [e]"
          by (cases q rule: rev_cases) auto
        then have pe: "p = tr @ q'" "e = Issue t'" using q(1) by auto
        have "Issue t' \<in> set q" using qe pe(2) by simp
        then have "Issue t' \<in> set (map Issue (bs ! k))"
          using set_mono_prefix [OF q(2)] by blast
        then have "t' \<in> set (bs ! k)" by auto
        then have "j = k"
          using batch_of_title [OF assms ij(2) batched_issue.hyps(2) t'] by simp
        then have "t \<in> set (issued tr)"
          using batch_in_take [of i k bs] ij(1) k t iss by auto
        then show ?thesis using settled pe(1) by simp
      qed
    qed
  qed
qed

subsection \<open>Runs that come to an end\<close>

lemma make_batches_Nil: "make_batches [] 0 [] = ([] :: int list list)"
  by (subst make_batches.simps) simp

lemma load_start_run_loop:
  "load_start a =
     run_loop (make_batches (array_from_set (map cfr_reference.title (cfr_references a))) 0 [])
       [] []"
  by (cases "cfr_references a = []")
     (simp_all add: load_start_def array_from_set_Nil make_batches_Nil)

lemma run_batch:
  "distinct b \<Longrightarrow> distinct u \<Longrightarrow> u \<noteq> [] \<Longrightarrow> set u \<inter> S = {} \<Longrightarrow> S \<union> set u = set b \<Longrightarrow>
   foldl (\<lambda>r t. settle env t r) (awaiting env rest b S acc tr) u =
     run_loop rest (acc @ entries env b) (tr @ map Settle u)"
proof (induction u arbitrary: S tr)
  case Nil
  then show ?case by simp
next
  case (Cons t u)
  have t: "t \<in> set b" "t \<notin> S"
    using Cons.prems(4,5) by auto
  show ?case
  proof (cases "u = []")
    case True
    have "set b \<subseteq> insert t S" using Cons.prems(5) True by auto
    then show ?thesis
      using settle_awaiting_last [OF Cons.prems(1) t, of env rest acc tr] True by simp
  next
    case False
    then obtain x where "x \<in> set u" by (cases u) auto
    then have "x \<in> set b" "x \<notin> insert t S"
      using Cons.prems(2,4,5) by auto
    then have n: "\<not> set b \<subseteq> insert t S" by blast
    have s: "settle env t (awaiting env rest b S acc tr) =
        awaiting env rest b (insert t S) acc (tr @ [Settle t])"
      by (rule settle_awaiting_more [OF Cons.prems(1) t n])
    have "foldl (\<lambda>r t. settle env t r)
            (awaiting env rest b (insert t S) acc (tr @ [Settle t])) u =
          run_loop rest (acc @ entries env b) ((tr @ [Settle t]) @ map Settle u)"
      using Cons.prems False by (intro Cons.IH) auto
    then show ?thesis
      by (simp add: s)
  qed
qed

text \<open>
  The run in which the requests of each batch \<open>b\<close> settle in the order \<open>f b\<close> leaves the
  loop, with the entries of all titles and with the trace that lists batch after batch.
\<close>

lemma run_all:
  "\<forall>b \<in> set bs. b \<noteq> [] \<and> distinct b \<and> distinct (f b) \<and> set (f b) = set b \<Longrightarrow>
   foldl (\<lambda>r t. settle env t r) (run_loop bs acc tr) (concat (map f bs)) =
     run_loop [] (acc @ entries env (concat bs))
       (tr @ concat (map (\<lambda>b. map Issue b @ map Settle (f b)) bs))"
proof (induction bs arbitrary: acc tr)
  case Nil
  then show ?case by (simp add: entries_Nil)
next
  case (Cons b bs)
  have b: "b \<noteq> []" "distinct b" "distinct (f b)" "set (f b) = set b"
    using Cons.prems by simp_all
  have ne: "f b \<noteq> []" using b(1,4) by auto
  have e: "run_loop (b # bs) acc tr = awaiting env bs b {} acc (tr @ map Issue b)"
    by (rule run_loop_Cons [OF b(1)])
  have step: "foldl (\<lambda>r t. settle env t r) (awaiting env bs b {} acc (tr @ map Issue b)) (f b) =
      run_loop bs (acc @ entries env b) ((tr @ map Issue b) @ map Settle (f b))"
    using b ne by (intro run_batch) simp_all
  have "foldl (\<lambda>r t. settle env t r)
          (run_loop bs (acc @ entries env b) ((tr @ map Issue b) @ map Settle (f b)))
          (concat (map f bs)) =
        run_loop [] ((acc @ entries env b) @ entries env (concat bs))
          (((tr @ map Issue b) @ map Settle (f b))
             @ concat (map (\<lambda>b. map Issue b @ map Settle (f b)) bs))"
    using Cons.prems by (intro Cons.IH) simp
  then show ?case
    by (simp only: list.map concat.simps foldl_append e step entries_append append_assoc)
qed

text \<open>
  \<open>loadTitleData\<close>, the function run to completion, is the run in which every batch
  settles in the order that \<open>settle_order\<close> gives, provided that is an order of the batch.
\<close>

lemma loadTitleData_is_a_run:
  assumes "\<forall>b. distinct b \<longrightarrow> distinct (settle_order env b) \<and> set (settle_order env b) = set b"
  shows "http_trace (load_steps env a
           (concat (map (settle_order env)
              (make_batches (array_from_set (map cfr_reference.title (cfr_references a))) 0 []))))
         = fst (loadTitleData env a st)
       \<and> (\<exists>st'. snd (loadTitleData env a st) = Inr st'
             \<and> load_written (load_steps env a
                  (concat (map (settle_order env)
                     (make_batches (array_from_set (map cfr_reference.title (cfr_references a))) 0 []))))
                 = Some (titleData st'))"
proof -
  let ?uniq = "array_from_set (map cfr_reference.title (cfr_references a))"
  let ?bs = "make_batches ?uniq 0 []"
  have c: "concat ?bs = ?uniq" by (simp add: concat_make_batches)
  have z: "\<forall>b \<in> set ?bs. 0 < length b \<and> length b \<le> 5"
    by (rule make_batches_sizes) simp
  have "distinct (concat ?bs)" using c distinct_array_from_set by simp
  then have good: "\<forall>b \<in> set ?bs. b \<noteq> [] \<and> distinct b
      \<and> distinct (settle_order env b) \<and> set (settle_order env b) = set b"
    using z assms distinct_concat_elem [of ?bs] by auto
  have run: "load_steps env a (concat (map (settle_order env) ?bs)) =
      run_loop [] (entries env ?uniq)
        (concat (map (\<lambda>b. map Issue b @ map Settle (settle_order env b)) ?bs))"
    using run_all [OF good, of env "[]" "[]"]
    by (simp add: load_steps_def load_start_run_loop c)
  have "(\<lambda>b. map Issue b @ map Settle (settle_order env b)) = batch_events env"
    by (rule ext) (simp add: batch_events_def)
  then show ?thesis
    by (simp add: run loadTitleData_result load_written_def entries_def)
qed

lemma reached_written:
  "reached env bs r \<Longrightarrow>
   (outcome r \<noteq> None \<longrightarrow> load_written r = Some (entries env (concat bs)) \<and> pending r = []
      \<and> (\<exists>k. k = length bs \<and> batched bs k (pending r) (http_trace r)))
   \<and> (\<exists>k. batched bs k (pending r) (http_trace r))"
  unfolding reached_def
proof (elim disjE exE conjE)
  fix k S
  assume eq: "r = awaiting env (drop (Suc k) bs) (bs ! k) S (entries env (concat (take k bs)))
                (http_trace r)"
    and b: "batched bs (Suc k) (filter (\<lambda>t. t \<notin> S) (bs ! k)) (http_trace r)"
  have "outcome r = None"
    by (subst eq) (simp add: awaiting_def)
  moreover have "pending r = filter (\<lambda>t. t \<notin> S) (bs ! k)"
    by (subst eq) (rule pending_awaiting)
  ultimately show ?thesis using b by auto
next
  assume eq: "r = run_loop [] (entries env (concat bs)) (http_trace r)"
    and b: "batched bs (length bs) [] (http_trace r)"
  have "load_written r = Some (entries env (concat bs))"
    by (subst eq) (simp add: load_written_def)
  moreover have "pending r = []"
    by (subst eq) (simp add: pending_def)
  ultimately show ?thesis using b by auto
qed

text \<open>
  Claim C7. The titles are deduplicated before anything is fetched, and the distinct
  titles are cut, in order, into batches of at least one and at most five titles. In
  every run of \<^verbatim>\<open>loadTitleData\<close>, that is, for every order in which the environment settles
  requests and at every moment of it: the requests issued so far are an initial part
  of the distinct titles, so no title is fetched twice; the requests in flight are
  those of the callbacks that still wait, and they are never more than five; and when
  a request of a batch is issued, every request of every earlier batch has settled.
  When the loop is left, each distinct title has been fetched exactly once, nothing
  is in flight, and what is written to \<open>titleData\<close> is what the function run to
  completion computes. A run in which the requests settle in the order of issue does
  leave the loop.
\<close>

theorem loadTitleData_batches:
  fixes env :: env and a :: agency and schedule :: "int list" and st :: state
  defines "uniqueTitles \<equiv> array_from_set (map cfr_reference.title (cfr_references a))"
  defines "batches \<equiv> make_batches uniqueTitles 0 []"
  defines "r \<equiv> load_steps env a schedule"
  shows "distinct uniqueTitles
     \<and> set uniqueTitles = set (map cfr_reference.title (cfr_references a))
     \<and> concat batches = uniqueTitles
     \<and> (\<forall>b \<in> set batches. 0 < length b \<and> length b \<le> 5)
     \<and> prefix (issued (http_trace r)) uniqueTitles
     \<and> in_flight (http_trace r) [] = pending r
     \<and> (\<forall>p. prefix p (http_trace r) \<longrightarrow> length (in_flight p []) \<le> 5)
     \<and> (\<forall>p t' i j t. prefix (p @ [Issue t']) (http_trace r) \<and> i < j \<and> j < length batches
            \<and> t \<in> set (batches ! i) \<and> t' \<in> set (batches ! j) \<longrightarrow> Settle t \<in> set p)
     \<and> (outcome r \<noteq> None \<longrightarrow>
          issued (http_trace r) = uniqueTitles \<and> pending r = []
          \<and> (\<exists>st'. snd (loadTitleData env a st) = Inr st'
                \<and> load_written r = Some (titleData st')))
     \<and> outcome (load_steps env a uniqueTitles) \<noteq> None"
proof -
  have d: "distinct uniqueTitles"
    unfolding uniqueTitles_def by (rule distinct_array_from_set)
  have s: "set uniqueTitles = set (map cfr_reference.title (cfr_references a))"
    unfolding uniqueTitles_def by (rule set_array_from_set)
  have c: "concat batches = uniqueTitles"
    unfolding batches_def by (simp add: concat_make_batches)
  have z: "\<forall>b \<in> set batches. 0 < length b \<and> length b \<le> 5"
    unfolding batches_def by (rule make_batches_sizes) simp
  have dc: "distinct (concat batches)" using c d by simp
  have good: "\<forall>b \<in> set batches. b \<noteq> [] \<and> distinct b"
    using z dc distinct_concat_elem [of batches] by auto
  have five: "\<forall>b \<in> set batches. length b \<le> 5" using z by simp
  have start: "load_start a = run_loop batches [] []"
    unfolding batches_def uniqueTitles_def by (rule load_start_run_loop)
  have re: "reached env batches r"
    unfolding r_def load_steps_def start
    by (intro reached_steps [OF good] reached_start [OF good])
  from reached_written [OF re] obtain k
    where b: "batched batches k (pending r) (http_trace r)"
      and w: "outcome r \<noteq> None \<longrightarrow> load_written r = Some (entries env (concat batches))
                \<and> pending r = [] \<and> batched batches (length batches) (pending r) (http_trace r)"
    by auto
  have i: "issued (http_trace r) = concat (take k batches)"
    using batched_issued [OF b] by simp
  have "prefix (concat (take k batches)) (concat (take k batches @ drop k batches))"
    by (simp only: concat_append) simp
  then have p: "prefix (issued (http_trace r)) uniqueTitles"
    using i c by simp
  have f: "in_flight (http_trace r) [] = pending r"
    by (rule batched_in_flight [OF b])
  have bound: "\<forall>p. prefix p (http_trace r) \<longrightarrow> length (in_flight p []) \<le> 5"
    using batched_bound [OF five b] by simp
  have seq: "\<forall>p t' i j t. prefix (p @ [Issue t']) (http_trace r) \<and> i < j \<and> j < length batches
            \<and> t \<in> set (batches ! i) \<and> t' \<in> set (batches ! j) \<longrightarrow> Settle t \<in> set p"
    by (rule batched_sequential [OF dc b])
  have res: "snd (loadTitleData env a st) = Inr (st\<lparr>titleData := entries env uniqueTitles\<rparr>)"
    unfolding uniqueTitles_def by (simp add: loadTitleData_result entries_def)
  have fin: "outcome r \<noteq> None \<longrightarrow>
          issued (http_trace r) = uniqueTitles \<and> pending r = []
          \<and> (\<exists>st'. snd (loadTitleData env a st) = Inr st'
                \<and> load_written r = Some (titleData st'))"
  proof
    assume o: "outcome r \<noteq> None"
    then have w': "load_written r = Some (entries env (concat batches))" "pending r = []"
        "batched batches (length batches) (pending r) (http_trace r)"
      using w by blast+
    have "issued (http_trace r) = uniqueTitles"
      using batched_issued [OF w'(3)] c by simp
    then show "issued (http_trace r) = uniqueTitles \<and> pending r = []
          \<and> (\<exists>st'. snd (loadTitleData env a st) = Inr st'
                \<and> load_written r = Some (titleData st'))"
      using w'(1,2) res c by simp
  qed
  have "\<forall>b \<in> set batches. b \<noteq> [] \<and> distinct b \<and> distinct (id b) \<and> set (id b) = set b"
    using good by simp
  then have "foldl (\<lambda>r t. settle env t r) (run_loop batches [] []) (concat (map id batches)) =
      run_loop [] ([] @ entries env (concat batches))
        ([] @ concat (map (\<lambda>b. map Issue b @ map Settle (id b)) batches))"
    by (rule run_all)
  then have complete: "outcome (load_steps env a uniqueTitles) \<noteq> None"
    unfolding load_steps_def start using c by simp
  show ?thesis
    using d s c z p f bound seq fin complete by blast
qed

theorem loadTitleData_batches_witness:
  "make_batches (array_from_set (map cfr_reference.title (cfr_references example_seven))) 0 [] =
     [[1, 2, 3, 4, 5], [6]]
   \<and> http_trace (load_steps (example_env [5] []) example_seven [3, 1, 6, 2, 5, 4, 6]) =
       [Issue 1, Issue 2, Issue 3, Issue 4, Issue 5,
        Settle 3, Settle 1, Settle 2, Settle 5, Settle 4, Issue 6, Settle 6]
   \<and> prefix ([Issue 1, Issue 2, Issue 3, Issue 4, Issue 5,
               Settle 3, Settle 1, Settle 2, Settle 5, Settle 4] @ [Issue 6])
        (http_trace (load_steps (example_env [5] []) example_seven [3, 1, 6, 2, 5, 4, 6]))
   \<and> (0 :: nat) < 1 \<and> (1 :: nat) < length [[1, 2, 3, 4, 5], [6 :: int]]
   \<and> (3 :: int) \<in> set ([[1, 2, 3, 4, 5], [6]] ! 0) \<and> (6 :: int) \<in> set ([[1, 2, 3, 4, 5], [6]] ! 1)
   \<and> Settle 3 \<in> set [Issue 1, Issue 2, Issue 3, Issue 4, Issue 5,
                       Settle 3, Settle 1, Settle 2, Settle 5, Settle 4]
   \<and> outcome (load_steps (example_env [5] []) example_seven [3, 1, 6, 2, 5, 4, 6]) \<noteq> None
   \<and> pending (load_steps (example_env [5] []) example_seven [3, 1, 6, 2, 5, 4, 6]) = []
   \<and> map title_data.title
        (case load_written (load_steps (example_env [5] []) example_seven [3, 1, 6, 2, 5, 4, 6]) of
           None \<Rightarrow> [] | Some tds \<Rightarrow> tds) = [1, 2, 3, 4, 6]
   \<and> http_trace (load_steps (example_env [5] []) example_seven [1, 2]) =
       [Issue 1, Issue 2, Issue 3, Issue 4, Issue 5, Settle 1, Settle 2]
   \<and> pending (load_steps (example_env [5] []) example_seven [1, 2]) = [3, 4, 5]
   \<and> outcome (load_steps (example_env [5] []) example_seven [1, 2]) = None"
proof -
  have b: "make_batches (array_from_set (map cfr_reference.title (cfr_references example_seven))) 0 [] =
     [[1, 2, 3, 4, 5], [6]]"
    by code_simp
  have t: "http_trace (load_steps (example_env [5] []) example_seven [3, 1, 6, 2, 5, 4, 6]) =
       [Issue 1, Issue 2, Issue 3, Issue 4, Issue 5,
        Settle 3, Settle 1, Settle 2, Settle 5, Settle 4, Issue 6, Settle 6]"
    by code_simp
  have p: "prefix ([Issue 1, Issue 2, Issue 3, Issue 4, Issue 5,
               Settle 3, Settle 1, Settle 2, Settle 5, Settle 4] @ [Issue 6])
        (http_trace (load_steps (example_env [5] []) example_seven [3, 1, 6, 2, 5, 4, 6]))"
    by (simp add: t)
  have o: "outcome (load_steps (example_env [5] []) example_seven [3, 1, 6, 2, 5, 4, 6]) \<noteq> None"
    by code_simp
  have w: "map title_data.title
        (case load_written (load_steps (example_env [5] []) example_seven [3, 1, 6, 2, 5, 4, 6]) of
           None \<Rightarrow> [] | Some tds \<Rightarrow> tds) = [1, 2, 3, 4, 6]"
    by code_simp
  have t2: "http_trace (load_steps (example_env [5] []) example_seven [1, 2]) =
       [Issue 1, Issue 2, Issue 3, Issue 4, Issue 5, Settle 1, Settle 2]"
    by code_simp
  have p2: "pending (load_steps (example_env [5] []) example_seven [1, 2]) = [3, 4, 5]"
    by code_simp
  have o2: "outcome (load_steps (example_env [5] []) example_seven [1, 2]) = None"
    by code_simp
  have m: "(3 :: int) \<in> set ([[1, 2, 3, 4, 5], [6]] ! 0)" "(6 :: int) \<in> set ([[1, 2, 3, 4, 5], [6]] ! 1)"
    "Settle 3 \<in> set [Issue 1, Issue 2, Issue 3, Issue 4, Issue 5,
                       Settle 3, Settle 1, Settle 2, Settle 5, Settle 4]"
    by simp_all
  have l: "(0 :: nat) < 1" "(1 :: nat) < length [[1, 2, 3, 4, 5], [6 :: int]]"
    by simp_all
  have q: "pending (load_steps (example_env [5] []) example_seven [3, 1, 6, 2, 5, 4, 6]) = []"
    using loadTitleData_batches [where env = "example_env [5] []" and a = example_seven
        and schedule = "[3, 1, 6, 2, 5, 4, 6]" and st = "example_state [] []"] o
    by blast
  show ?thesis
    using b t p o w t2 p2 o2 m l q by blast
qed

end
